theory Spec2Isabelle
  imports Complex_Main "HOL-Library.Word"
begin

section \<open>Data model (database/entities)\<close>

text \<open>
  The two entities the comparison engine writes. Session and user identifiers are
  opaque strings that are only compared; the generated primary key of a model response is
  a natural number chosen fresh by the store. A nullable column is an \<open>option\<close>.
  Token counts and milliseconds are integers, cost and the average latency are JavaScript
  numbers read as exact reals. A character of a \<open>string\<close> stands for one code unit of
  the JavaScript string, so \<open>length\<close> is \<^verbatim>\<open>.length\<close>; the identifiers, prompts and
  texts of the examples are made of code units below 0x100. Only the token estimator
  depends on what a code unit is, and it is modelled over all 16-bit code units.
\<close>

datatype response_status = RPending | RStreaming | RCompleted | RError

datatype session_status = SPending | SInProgress | SCompleted | SFailed

record model_response =
  mr_id :: nat
  mr_modelId :: string
  mr_provider :: string
  mr_response :: "string option"
  mr_status :: response_status
  mr_inputTokens :: "int option"
  mr_outputTokens :: "int option"
  mr_cost :: "real option"
  mr_responseTimeMs :: "int option"
  mr_errorMessage :: "string option"
  mr_sessionId :: string

record comparison_session =
  cs_id :: string
  cs_prompt :: string
  cs_status :: session_status
  cs_totalTokens :: int
  cs_totalCost :: real
  cs_averageResponseTime :: real
  cs_createdAt :: nat
  cs_userId :: string

text \<open>The two repositories: tables as lists of rows, in insertion order.\<close>

record database =
  sessions :: "comparison_session list"
  responses :: "model_response list"

datatype error = TypeError string | Error string

section \<open>DatabaseService (database.service)\<close>

text \<open>
  The repositories are the SQLite store behind TypeORM. The functions of this section are
  the calls as the store carries them out: it keeps the values it is handed as they are
  (SQLite does not round a number to the declared precision of its column), and an update
  of rows that do not exist changes nothing. When a call reaches the store, and whether
  the store accepts it, is a matter of the caller and is dealt with where
  \<open>startComparisonStreaming\<close> is modelled.
\<close>

definition updateSessionStatus :: "string \<Rightarrow> session_status \<Rightarrow> database \<Rightarrow> database" where
  "updateSessionStatus sessionId st db =
     db\<lparr>sessions := map (\<lambda>s. if cs_id s = sessionId then s\<lparr>cs_status := st\<rparr> else s) (sessions db)\<rparr>"

text \<open>
  \<^verbatim>\<open>findOne({where: {id: sessionId, userId}, relations: ["responses"]})\<close>: the first
  row matching both columns with the responses that point to it, or null.
\<close>

definition getSession ::
  "string \<Rightarrow> string \<Rightarrow> database \<Rightarrow> (comparison_session \<times> model_response list) option" where
  "getSession sessionId userId db =
     (case find (\<lambda>s. cs_id s = sessionId \<and> cs_userId s = userId) (sessions db) of
        None \<Rightarrow> None
      | Some s \<Rightarrow> Some (s, filter (\<lambda>r. mr_sessionId r = cs_id s) (responses db)))"

text \<open>
  \<^verbatim>\<open>find({where: {userId}, order: {createdAt: "DESC"}, take: limit, skip: offset})\<close>.
\<close>

definition getSessions ::
  "string \<Rightarrow> nat \<Rightarrow> nat \<Rightarrow> database \<Rightarrow> (comparison_session \<times> model_response list) list" where
  "getSessions userId limit offset db =
     map (\<lambda>s. (s, filter (\<lambda>r. mr_sessionId r = cs_id s) (responses db)))
       (take limit (drop offset
          (rev (sort_key cs_createdAt (filter (\<lambda>s. cs_userId s = userId) (sessions db))))))"

definition newId :: "model_response list \<Rightarrow> nat" where
  "newId rs = Suc (foldr max (map mr_id rs) 0)"

definition createModelResponse ::
  "string \<Rightarrow> string \<Rightarrow> string \<Rightarrow> database \<Rightarrow> model_response \<times> database" where
  "createModelResponse sessionId modelId provider db =
     (let response = \<lparr> mr_id = newId (responses db), mr_modelId = modelId,
                        mr_provider = provider, mr_response = Some '''',
                        mr_status = RPending, mr_inputTokens = None, mr_outputTokens = None,
                        mr_cost = None, mr_responseTimeMs = None, mr_errorMessage = None,
                        mr_sessionId = sessionId \<rparr>
      in (response, db\<lparr>responses := responses db @ [response]\<rparr>))"

text \<open>\<^verbatim>\<open>responseRepository.update(responseId, updates)\<close>: the partial update is a function on the row.\<close>

definition updateModelResponse ::
  "nat \<Rightarrow> (model_response \<Rightarrow> model_response) \<Rightarrow> database \<Rightarrow> database" where
  "updateModelResponse responseId updates db =
     db\<lparr>responses := map (\<lambda>r. if mr_id r = responseId then updates r else r) (responses db)\<rparr>"

record metrics =
  inputTokens :: int
  outputTokens :: int
  cost :: real
  responseTimeMs :: int

definition finalizeModelResponse :: "nat \<Rightarrow> metrics \<Rightarrow> database \<Rightarrow> database" where
  "finalizeModelResponse responseId m db =
     updateModelResponse responseId
       (\<lambda>r. r\<lparr>mr_inputTokens := Some (inputTokens m), mr_outputTokens := Some (outputTokens m),
              mr_cost := Some (cost m), mr_responseTimeMs := Some (responseTimeMs m),
              mr_status := RCompleted\<rparr>) db"

definition markResponseAsError :: "nat \<Rightarrow> string \<Rightarrow> database \<Rightarrow> database" where
  "markResponseAsError responseId errorMessage db =
     updateModelResponse responseId
       (\<lambda>r. r\<lparr>mr_status := RError, mr_errorMessage := Some errorMessage\<rparr>) db"

text \<open>\<^verbatim>\<open>x || 0\<close> on a nullable number.\<close>

definition orZero :: "'a::zero option \<Rightarrow> 'a" where
  "orZero v = (case v of None \<Rightarrow> 0 | Some x \<Rightarrow> x)"

definition updateSessionMetrics :: "string \<Rightarrow> database \<Rightarrow> database" where
  "updateSessionMetrics sessionId db =
     (let found = filter (\<lambda>r. mr_sessionId r = sessionId \<and> mr_status r = RCompleted) (responses db);
          totalTokens = fold (\<lambda>r sum. sum + orZero (mr_inputTokens r) + orZero (mr_outputTokens r)) found 0;
          totalCost = fold (\<lambda>r sum. sum + orZero (mr_cost r)) found 0;
          averageResponseTime =
            (if length found > 0
             then real_of_int (fold (\<lambda>r sum. sum + orZero (mr_responseTimeMs r)) found 0)
                    / real (length found)
             else 0)
      in db\<lparr>sessions := map (\<lambda>s. if cs_id s = sessionId
                                  then s\<lparr>cs_totalTokens := totalTokens, cs_totalCost := totalCost,
                                         cs_averageResponseTime := averageResponseTime\<rparr>
                                  else s) (sessions db)\<rparr>)"

section \<open>ComparisonService: read operations (comparison.service)\<close>

record response_view =
  rv_id :: nat
  rv_modelId :: string
  rv_provider :: string
  rv_response :: "string option"
  rv_status :: response_status
  rv_inputTokens :: "int option"
  rv_outputTokens :: "int option"
  rv_cost :: "real option"
  rv_responseTimeMs :: "int option"
  rv_errorMessage :: "string option"

record comparison_view =
  cv_id :: string
  cv_prompt :: string
  cv_status :: session_status
  cv_totalTokens :: int
  cv_totalCost :: real
  cv_averageResponseTime :: real
  cv_createdAt :: nat
  cv_responses :: "response_view list"

definition responseView :: "model_response \<Rightarrow> response_view" where
  "responseView r =
     \<lparr> rv_id = mr_id r, rv_modelId = mr_modelId r, rv_provider = mr_provider r,
       rv_response = mr_response r, rv_status = mr_status r, rv_inputTokens = mr_inputTokens r,
       rv_outputTokens = mr_outputTokens r, rv_cost = mr_cost r,
       rv_responseTimeMs = mr_responseTimeMs r, rv_errorMessage = mr_errorMessage r \<rparr>"

definition sessionView :: "comparison_session \<Rightarrow> model_response list \<Rightarrow> comparison_view" where
  "sessionView session rs =
     \<lparr> cv_id = cs_id session, cv_prompt = cs_prompt session, cv_status = cs_status session,
       cv_totalTokens = cs_totalTokens session, cv_totalCost = cs_totalCost session,
       cv_averageResponseTime = cs_averageResponseTime session,
       cv_createdAt = cs_createdAt session, cv_responses = map responseView rs \<rparr>"

definition getComparison :: "string \<Rightarrow> string \<Rightarrow> database \<Rightarrow> error + comparison_view" where
  "getComparison sessionId userId db =
     (case getSession sessionId userId db of
        None \<Rightarrow> Inl (Error (''Session '' @ sessionId @ '' not found''))
      | Some (session, rs) \<Rightarrow> Inr (sessionView session rs))"

record history_item =
  hi_id :: string
  hi_prompt :: string
  hi_status :: session_status
  hi_totalTokens :: int
  hi_totalCost :: real
  hi_averageResponseTime :: real
  hi_responseCount :: nat
  hi_createdAt :: nat

definition historyItem :: "comparison_session \<times> model_response list \<Rightarrow> history_item" where
  "historyItem = (\<lambda>(session, rs).
     \<lparr> hi_id = cs_id session,
       hi_prompt = take 100 (cs_prompt session)
                     @ (if length (cs_prompt session) > 100 then ''...'' else []),
       hi_status = cs_status session, hi_totalTokens = cs_totalTokens session,
       hi_totalCost = cs_totalCost session,
       hi_averageResponseTime = cs_averageResponseTime session,
       hi_responseCount = length rs, hi_createdAt = cs_createdAt session \<rparr>)"

definition getComparisonHistory :: "string \<Rightarrow> nat \<Rightarrow> nat \<Rightarrow> database \<Rightarrow> history_item list" where
  "getComparisonHistory userId limit offset db = map historyItem (getSessions userId limit offset db)"

section \<open>LangChainService (ai-provider/langchain.service)\<close>

subsection \<open>Token estimator\<close>

text \<open>
  The estimator looks at the text one UTF-16 code unit at a time, and its result depends
  on which code units are white space, so here a text is a list of 16-bit code units and
  \<open>length\<close> is \<^verbatim>\<open>.length\<close>. \<open>codeUnits\<close> reads a \<open>string\<close> of the rest of the
  development as such a text.
\<close>

type_synonym code_unit = "16 word"

definition codeUnits :: "string \<Rightarrow> code_unit list" where
  "codeUnits s = map (\<lambda>c. of_nat (of_char c)) s"

text \<open>
  The members of the regular expression class \<^verbatim>\<open>\s\<close>, which are also the code units
  \<^verbatim>\<open>trim\<close> removes: tab, line feed, vertical tab, form feed, carriage return, space,
  no-break space, U+1680, U+2000 to U+200A, the line and paragraph separators U+2028 and
  U+2029, U+202F, U+205F, U+3000 and the byte order mark U+FEFF.
\<close>

definition isWhiteSpace :: "code_unit \<Rightarrow> bool" where
  "isWhiteSpace c =
     (c \<in> set [0x0009, 0x000A, 0x000B, 0x000C, 0x000D, 0x0020, 0x00A0, 0x1680,
               0x2000, 0x2001, 0x2002, 0x2003, 0x2004, 0x2005, 0x2006, 0x2007, 0x2008,
               0x2009, 0x200A, 0x2028, 0x2029, 0x202F, 0x205F, 0x3000, 0xFEFF])"

definition trim :: "code_unit list \<Rightarrow> code_unit list" where
  "trim s = rev (dropWhile isWhiteSpace (rev (dropWhile isWhiteSpace s)))"

text \<open>
  \<^verbatim>\<open>s.split(/\s+/)\<close>: the pieces between the maximal runs of white space; a run at
  either end leaves an empty piece there, and the empty string gives one empty piece.
\<close>

function splitWs :: "code_unit list \<Rightarrow> code_unit list list" where
  "splitWs s =
     (if dropWhile (\<lambda>c. \<not> isWhiteSpace c) s = [] then [takeWhile (\<lambda>c. \<not> isWhiteSpace c) s]
      else takeWhile (\<lambda>c. \<not> isWhiteSpace c) s
             # splitWs (dropWhile isWhiteSpace (dropWhile (\<lambda>c. \<not> isWhiteSpace c) s)))"
  by pat_completeness auto
termination
proof (relation "measure length")
  fix s :: "code_unit list"
  assume ne: "dropWhile (\<lambda>c. \<not> isWhiteSpace c) s \<noteq> []"
  then obtain x xs where r: "dropWhile (\<lambda>c. \<not> isWhiteSpace c) s = x # xs"
    by (cases "dropWhile (\<lambda>c. \<not> isWhiteSpace c) s") auto
  have "isWhiteSpace x"
    using hd_dropWhile [OF ne] r by simp
  then have "length (dropWhile isWhiteSpace (x # xs)) \<le> length xs"
    by (simp add: length_dropWhile_le)
  moreover have "length (x # xs) \<le> length s"
    using length_dropWhile_le [of "\<lambda>c. \<not> isWhiteSpace c" s] r by simp
  ultimately show "(dropWhile isWhiteSpace (dropWhile (\<lambda>c. \<not> isWhiteSpace c) s), s) \<in> measure length"
    using r by simp
qed simp

declare splitWs.simps [simp del]

text \<open>
  \<^verbatim>\<open>Math.ceil(words * 1.3)\<close> and \<^verbatim>\<open>Math.ceil(characters / 3.5)\<close> are taken over the
  reals: the rounding error of the double product and quotient is far below the distance
  of the exact value to the next integer for every length a string can have.
\<close>

definition estimateTokens :: "code_unit list \<Rightarrow> int" where
  "estimateTokens text =
     (if text = [] then 0
      else let words = length (splitWs (trim text));
               characters = length text;
               wordBasedTokens = \<lceil>real words * 1.3\<rceil>;
               charBasedTokens = \<lceil>real characters / 3.5\<rceil>;
               estimatedTokens = max wordBasedTokens charBasedTokens
           in max estimatedTokens 1)"

subsection \<open>Registry and pricing\<close>

record config =
  OPENAI_API_KEY :: "string option"
  ANTHROPIC_API_KEY :: "string option"
  GOOGLE_API_KEY :: "string option"

definition configured :: "string option \<Rightarrow> bool" where
  "configured key = (case key of None \<Rightarrow> False | Some k \<Rightarrow> k \<noteq> [])"

text \<open>The keys of the \<^verbatim>\<open>models\<close> map after \<^verbatim>\<open>initializeModels\<close>.\<close>

definition initializeModels :: "config \<Rightarrow> string list" where
  "initializeModels cfg =
     (if configured (OPENAI_API_KEY cfg) then [''gpt-3.5-turbo'', ''gpt-4''] else [])
     @ (if configured (ANTHROPIC_API_KEY cfg)
        then [''claude-sonnet-4-20250514'', ''claude-3-5-haiku-20241022''] else [])
     @ (if configured (GOOGLE_API_KEY cfg)
        then [''gemini-2.5-flash-lite'', ''gemini-2.0-flash''] else [])"

record pricing =
  pr_input :: real
  pr_output :: real

definition pricingMap :: "(string \<times> pricing) list" where
  "pricingMap =
     [(''gpt-3.5-turbo'', \<lparr>pr_input = 0.0015, pr_output = 0.002\<rparr>),
      (''gpt-4'', \<lparr>pr_input = 0.03, pr_output = 0.06\<rparr>),
      (''claude-sonnet-4-20250514'', \<lparr>pr_input = 0.003, pr_output = 0.015\<rparr>),
      (''claude-3-5-haiku-20241022'', \<lparr>pr_input = 0.00025, pr_output = 0.00125\<rparr>),
      (''gemini-2.5-flash-lite'', \<lparr>pr_input = 0.0001, pr_output = 0.0004\<rparr>),
      (''gemini-2.0-flash'', \<lparr>pr_input = 0.0001, pr_output = 0.0004\<rparr>)]"

definition getPricing :: "string \<Rightarrow> pricing" where
  "getPricing modelId =
     (case map_of pricingMap modelId of Some p \<Rightarrow> p | None \<Rightarrow> \<lparr>pr_input = 0, pr_output = 0\<rparr>)"

definition calculateCost :: "string \<Rightarrow> int \<Rightarrow> int \<Rightarrow> real" where
  "calculateCost modelId inTok outTok =
     (let p = getPricing modelId;
          inputCost = (real_of_int inTok / 1000) * pr_input p;
          outputCost = (real_of_int outTok / 1000) * pr_output p
      in inputCost + outputCost)"

record model_info =
  mi_id :: string
  mi_name :: string
  mi_provider :: string
  mi_pricing :: pricing

definition catalogue :: "(string \<times> string \<times> string) list" where
  "catalogue =
     [(''gpt-3.5-turbo'', ''GPT-3.5 Turbo'', ''openai''),
      (''gpt-4'', ''GPT-4'', ''openai''),
      (''claude-sonnet-4-20250514'', ''Claude Sonnet 4'', ''anthropic''),
      (''claude-3-5-haiku-20241022'', ''Claude 3.5 Haiku'', ''anthropic''),
      (''gemini-2.5-flash-lite'', ''Gemini 2.5 Flash Lite'', ''google''),
      (''gemini-2.0-flash'', ''Gemini 2.0 Flash'', ''google'')]"

definition getAvailableModels :: "string list \<Rightarrow> model_info list" where
  "getAvailableModels models =
     map (\<lambda>(i, n, p). \<lparr>mi_id = i, mi_name = n, mi_provider = p, mi_pricing = getPricing i\<rparr>)
       (filter (\<lambda>(i, n, p). i \<in> set models) catalogue)"

subsection \<open>Streaming one model\<close>

text \<open>
  What the provider SDK does during one invocation is outside the repository, so it is
  a parameter: whether \<^verbatim>\<open>getNumTokens\<close> answers (\<open>None\<close>: it throws), the content of
  each chunk the stream yields, whether \<^verbatim>\<open>model.stream\<close> or the iteration throws after
  those chunks (\<open>Some message\<close>), and the milliseconds between the two clock readings.
\<close>

record sdk_run =
  getNumTokens :: "string \<Rightarrow> int option"
  streamContents :: "string list"
  streamThrows :: "string option"
  elapsedMs :: int

text \<open>The calls one invocation makes to its three callbacks, in order.\<close>

datatype callback = OnChunk string | OnComplete metrics | OnError string

text \<open>The \<^verbatim>\<open>for await\<close> loop: a chunk with empty content is skipped.\<close>

fun streamLoop :: "string list \<Rightarrow> string \<times> callback list \<Rightarrow> string \<times> callback list" where
  "streamLoop [] acc = acc"
| "streamLoop (content # rest) (fullResponse, calls) =
     (if content \<noteq> [] then streamLoop rest (fullResponse @ content, calls @ [OnChunk content])
      else streamLoop rest (fullResponse, calls))"

definition countTokens :: "sdk_run \<Rightarrow> string \<Rightarrow> int" where
  "countTokens sdk text = (case getNumTokens sdk text of Some n \<Rightarrow> n | None \<Rightarrow> estimateTokens (codeUnits text))"

definition streamResponse :: "string list \<Rightarrow> sdk_run \<Rightarrow> string \<Rightarrow> string \<Rightarrow> callback list" where
  "streamResponse models sdk modelId prompt =
     (if modelId \<notin> set models then [OnError (''Model '' @ modelId @ '' not found'')]
      else let inTok = countTokens sdk prompt;
               (fullResponse, calls) = streamLoop (streamContents sdk) ([], [])
           in case streamThrows sdk of
                Some message \<Rightarrow> calls @ [OnError message]
              | None \<Rightarrow>
                  let responseTime = elapsedMs sdk;
                      outTok = countTokens sdk fullResponse;
                      c = calculateCost modelId inTok outTok
                  in calls @ [OnComplete \<lparr>inputTokens = inTok, outputTokens = outTok,
                                           cost = c, responseTimeMs = responseTime\<rparr>])"

subsection \<open>Streaming several models\<close>

text \<open>The calls made to the three per-model callbacks of \<^verbatim>\<open>streamMultipleResponses\<close>.\<close>

datatype event = ModelChunk string string | ModelComplete string metrics | ModelError string string

fun eventModel :: "event \<Rightarrow> string" where
  "eventModel (ModelChunk modelId chunk) = modelId"
| "eventModel (ModelComplete modelId m) = modelId"
| "eventModel (ModelError modelId e) = modelId"

fun forModel :: "string \<Rightarrow> callback \<Rightarrow> event" where
  "forModel modelId (OnChunk chunk) = ModelChunk modelId chunk"
| "forModel modelId (OnComplete m) = ModelComplete modelId m"
| "forModel modelId (OnError e) = ModelError modelId e"

text \<open>
  The invocations run as interleaved tasks on one event loop. Which task makes its next
  callback call is decided by the timing of the providers: the schedule, a list of
  invocation numbers, is that timing. A number whose task has nothing left is passed over,
  and when the schedule is used up the calls still outstanding follow, so that every task
  always runs to its end, as \<^verbatim>\<open>Promise.all\<close> waits for.
\<close>

fun interleave :: "nat list \<Rightarrow> 'a list list \<Rightarrow> 'a list" where
  "interleave [] qs = concat qs"
| "interleave (k # ks) qs =
     (if k < length qs
      then (case qs ! k of
              [] \<Rightarrow> interleave ks qs
            | e # es \<Rightarrow> e # interleave ks (qs[k := es]))
      else interleave ks qs)"

text \<open>
  \<^verbatim>\<open>promises\<close>: one invocation per element of the list, each with its calls to the
  per-model callbacks. The invocation at position \<open>k\<close> meets the provider behaviour
  \<open>sdk k\<close>.
\<close>

definition promises ::
  "string list \<Rightarrow> (nat \<Rightarrow> sdk_run) \<Rightarrow> string list \<Rightarrow> string \<Rightarrow> event list list" where
  "promises models sdk modelIds prompt =
     map (\<lambda>(k, modelId). map (forModel modelId) (streamResponse models (sdk k) modelId prompt))
         (enumerate 0 modelIds)"

definition streamMultipleResponses ::
  "string list \<Rightarrow> (nat \<Rightarrow> sdk_run) \<Rightarrow> nat list \<Rightarrow> string list \<Rightarrow> string \<Rightarrow> event list" where
  "streamMultipleResponses models sdk schedule modelIds prompt =
     interleave schedule (promises models sdk modelIds prompt)"

section \<open>ComparisonService: startComparisonStreaming (comparison.service)\<close>

text \<open>\<^verbatim>\<open>response.response || ""\<close>.\<close>

definition orEmpty :: "string option \<Rightarrow> string" where
  "orEmpty v = (case v of None \<Rightarrow> [] | Some s \<Rightarrow> s)"

text \<open>
  The function is modelled twice. This section takes the store to accept every call and
  to carry it out the moment it is issued; it serves the properties of a call on a stored
  session that do not depend on when an update lands. The next section lets the store
  take its time and reject calls, and refuse a row for a session that is not stored; on a
  stored session and a store that accepts every call and carries it out before the next
  one is made it gives what this section gives (\<open>prompt_store_agrees\<close>).
\<close>

text \<open>
  The three callbacks handed to \<^verbatim>\<open>streamMultipleResponses\<close>. Their state is the
  \<^verbatim>\<open>responseMap\<close> of in-memory response objects, the database, and the calls forwarded to
  the caller's own callbacks. A write takes effect when it is issued.
\<close>

type_synonym reducer = "(string \<rightharpoonup> model_response) \<times> database \<times> event list"

fun onEvent :: "event \<Rightarrow> reducer \<Rightarrow> reducer" where
  "onEvent (ModelChunk modelId chunk) (responseMap, db, out) =
     (case responseMap modelId of
        Some response \<Rightarrow>
          (let updatedResponse = orEmpty (mr_response response) @ chunk
           in (responseMap(modelId \<mapsto> response\<lparr>mr_response := Some updatedResponse\<rparr>),
               updateModelResponse (mr_id response)
                 (\<lambda>r. r\<lparr>mr_response := Some updatedResponse, mr_status := RStreaming\<rparr>) db,
               out @ [ModelChunk modelId chunk]))
      | None \<Rightarrow> (responseMap, db, out @ [ModelChunk modelId chunk]))"
| "onEvent (ModelComplete modelId m) (responseMap, db, out) =
     (case responseMap modelId of
        Some response \<Rightarrow>
          (responseMap, finalizeModelResponse (mr_id response) m db, out @ [ModelComplete modelId m])
      | None \<Rightarrow> (responseMap, db, out @ [ModelComplete modelId m]))"
| "onEvent (ModelError modelId e) (responseMap, db, out) =
     (case responseMap modelId of
        Some response \<Rightarrow>
          (responseMap, markResponseAsError (mr_id response) e db, out @ [ModelError modelId e])
      | None \<Rightarrow> (responseMap, db, out @ [ModelError modelId e]))"

text \<open>
  \<^verbatim>\<open>modelIds.map(async ...)\<close>: every element is visited, so the rows of the known models
  are inserted even when another identifier makes \<^verbatim>\<open>model.provider\<close> throw; the awaited
  \<^verbatim>\<open>Promise.all\<close> then rejects with that TypeError.
\<close>

definition undefinedProvider :: error where
  "undefinedProvider =
     TypeError (''Cannot read properties of undefined (reading '' @ [CHR 0x27] @ ''provider'' @ [CHR 0x27] @ '')'')"

definition nullPrompt :: error where
  "nullPrompt =
     TypeError (''Cannot read properties of null (reading '' @ [CHR 0x27] @ ''prompt'' @ [CHR 0x27] @ '')'')"

fun createResponses ::
  "model_info list \<Rightarrow> string \<Rightarrow> string list \<Rightarrow> database
     \<Rightarrow> error option \<times> model_response list \<times> database" where
  "createResponses available sessionId [] db = (None, [], db)"
| "createResponses available sessionId (modelId # rest) db =
     (case find (\<lambda>m. mi_id m = modelId) available of
        None \<Rightarrow>
          (case createResponses available sessionId rest db of
             (e, rs, db') \<Rightarrow> (Some undefinedProvider, rs, db'))
      | Some model \<Rightarrow>
          (case createModelResponse sessionId modelId (mi_provider model) db of
             (r, db1) \<Rightarrow>
               (case createResponses available sessionId rest db1 of
                  (e, rs, db2) \<Rightarrow> (e, r # rs, db2))))"

text \<open>\<^verbatim>\<open>new Map(responses.map((r) => [r.modelId, r]))\<close>: a later entry replaces an earlier one.\<close>

definition mkResponseMap :: "model_response list \<Rightarrow> (string \<rightharpoonup> model_response)" where
  "mkResponseMap rs = fold (\<lambda>r m. m(mr_modelId r \<mapsto> r)) rs Map.empty"

text \<open>The body of the \<^verbatim>\<open>try\<close> block: the outcome, the database and the forwarded calls.\<close>

definition comparisonBody ::
  "string list \<Rightarrow> (nat \<Rightarrow> sdk_run) \<Rightarrow> nat list \<Rightarrow> string \<Rightarrow> string \<Rightarrow> string list \<Rightarrow> database
     \<Rightarrow> (error + unit) \<times> database \<times> event list" where
  "comparisonBody models sdk schedule sessionId userId modelIds db =
     (let db1 = updateSessionStatus sessionId SInProgress db
      in case createResponses (getAvailableModels models) sessionId modelIds db1 of
           (Some e, rs, db2) \<Rightarrow> (Inl e, db2, [])
         | (None, rs, db2) \<Rightarrow>
             (case getSession sessionId userId db2 of
                None \<Rightarrow> (Inl nullPrompt, db2, [])
              | Some (session, _) \<Rightarrow>
                  (case fold onEvent
                          (streamMultipleResponses models sdk schedule modelIds (cs_prompt session))
                          (mkResponseMap rs, db2, []) of
                     (responseMap, db3, out) \<Rightarrow>
                       (Inr (),
                        updateSessionStatus sessionId SCompleted (updateSessionMetrics sessionId db3),
                        out))))"

definition startComparisonStreaming ::
  "string list \<Rightarrow> (nat \<Rightarrow> sdk_run) \<Rightarrow> nat list \<Rightarrow> string \<Rightarrow> string \<Rightarrow> string list \<Rightarrow> database
     \<Rightarrow> (error + unit) \<times> database \<times> event list" where
  "startComparisonStreaming models sdk schedule sessionId userId modelIds db =
     (case comparisonBody models sdk schedule sessionId userId modelIds db of
        (Inl e, db', out) \<Rightarrow> (Inl e, updateSessionStatus sessionId SFailed db', out)
      | (Inr u, db', out) \<Rightarrow> (Inr u, db', out))"

section \<open>ComparisonService: startComparisonStreaming on a store that takes its time\<close>

text \<open>
  The model above lets the store answer each call at once and accept it. The source
  does not wait for every call it makes, and a call can be rejected:

  \<^item> the saves of the response rows are started together, under \<^verbatim>\<open>Promise.all\<close>;
  \<^item> the update made by the chunk callback is not awaited;
  \<^item> the completion and error callbacks are \<^verbatim>\<open>async\<close> and \<open>streamResponse\<close> drops the
    promises they return, so their updates are not awaited by the orchestration either;
  \<^item> every awaited call can reject, which throws into the \<^verbatim>\<open>try\<close> block, or out of the
    \<^verbatim>\<open>catch\<close> block for the status write made there.

  A \<open>store_run\<close> fixes what the store does during one call: which of the awaited calls it
  rejects and with what error, the order in which the saves reach it, the order in which
  the response updates that are in flight land, and how many of those land only after
  \<open>updateSessionMetrics\<close> has read the completed rows. The saves are told apart by the
  position of their identifier in the requested list. \<open>UpdateMetrics\<close> stands for the two
  calls \<open>updateSessionMetrics\<close> awaits, the read of the completed rows and the update of
  the session: when either is rejected the session is not written.
\<close>

datatype store_call =
  SetInProgress | SaveResponse nat | ReadSession | UpdateMetrics | SetCompleted | SetFailed

record store_run =
  rejects :: "store_call \<Rightarrow> error option"
  saveOrder :: "nat list"
  landing :: "nat list"
  lateAtRead :: nat

text \<open>
  Calls that are in flight together reach the store in an order of its own:
  \<open>arrange ks xs\<close> takes, for each \<open>k\<close> of \<open>ks\<close> in turn, the element at position \<open>k\<close> of
  what is left of \<open>xs\<close>, and then the rest in the order of issue. \<open>arrange [] xs\<close> is the
  order of issue.
\<close>

fun arrange :: "nat list \<Rightarrow> 'a list \<Rightarrow> 'a list" where
  "arrange [] xs = xs"
| "arrange (k # ks) xs =
     (if k < length xs then xs ! k # arrange ks (take k xs @ drop (Suc k) xs)
      else arrange ks xs)"

subsection \<open>Saving the response rows\<close>

text \<open>
  \<^verbatim>\<open>responseRepository.save\<close> of a new row. SQLite checks the foreign key of the row
  (TypeORM opens the database with \<^verbatim>\<open>PRAGMA foreign_keys = ON\<close>): a row for a session
  that is not stored is refused.
\<close>

definition foreignKeyFailed :: error where
  "foreignKeyFailed = Error ''SQLITE_CONSTRAINT: FOREIGN KEY constraint failed''"

definition saveModelResponse ::
  "store_run \<Rightarrow> nat \<Rightarrow> string \<Rightarrow> string \<Rightarrow> string \<Rightarrow> database
     \<Rightarrow> error + model_response \<times> database" where
  "saveModelResponse store k sessionId modelId provider db =
     (case rejects store (SaveResponse k) of
        Some e \<Rightarrow> Inl e
      | None \<Rightarrow>
          if sessionId \<in> set (map cs_id (sessions db))
          then Inr (createModelResponse sessionId modelId provider db)
          else Inl foreignKeyFailed)"

text \<open>
  \<^verbatim>\<open>modelIds.map(async ...)\<close>: the function runs for every element up to its first
  \<^verbatim>\<open>await\<close>. For an identifier outside the registry \<^verbatim>\<open>model.provider\<close> throws and the
  promise is rejected on the spot; for the others a save is started. \<open>responsePromises\<close>
  lists the saves that are started, with the position of their identifier.
\<close>

definition responsePromises :: "model_info list \<Rightarrow> string list \<Rightarrow> (nat \<times> string \<times> string) list" where
  "responsePromises available modelIds =
     List.map_filter
       (\<lambda>(k, modelId). case find (\<lambda>m. mi_id m = modelId) available of
                          None \<Rightarrow> None
                        | Some model \<Rightarrow> Some (k, modelId, mi_provider model))
       (enumerate 0 modelIds)"

text \<open>
  The saves in the order in which they reach the store. A rejected save leaves no row
  and does not stop the others; the first rejection is the one \<^verbatim>\<open>Promise.all\<close> sees.
\<close>

fun saveAll ::
  "store_run \<Rightarrow> string \<Rightarrow> (nat \<times> string \<times> string) list \<Rightarrow> database
     \<Rightarrow> error option \<times> (nat \<times> model_response) list \<times> database" where
  "saveAll store sessionId [] db = (None, [], db)"
| "saveAll store sessionId ((k, modelId, provider) # rest) db =
     (case saveModelResponse store k sessionId modelId provider db of
        Inl e \<Rightarrow>
          (case saveAll store sessionId rest db of (later, saved, db') \<Rightarrow> (Some e, saved, db'))
      | Inr (r, db1) \<Rightarrow>
          (case saveAll store sessionId rest db1 of
             (later, saved, db') \<Rightarrow> (later, (k, r) # saved, db')))"

text \<open>
  \<^verbatim>\<open>await Promise.all(responsePromises)\<close>. A promise rejected by the TypeError is
  rejected before any save is answered, so that error wins; otherwise the first rejected
  save does; otherwise the result is the saved rows in the order of the requested list.
  The database is the store once all the saves have been answered.
\<close>

definition createResponses_on ::
  "store_run \<Rightarrow> model_info list \<Rightarrow> string \<Rightarrow> string list \<Rightarrow> database
     \<Rightarrow> (error + model_response list) \<times> database" where
  "createResponses_on store available sessionId modelIds db =
     (case saveAll store sessionId
             (arrange (saveOrder store) (responsePromises available modelIds)) db of
        (rejected, saved, db') \<Rightarrow>
          (if length (responsePromises available modelIds) < length modelIds
           then (Inl undefinedProvider, db')
           else case rejected of
                  Some e \<Rightarrow> (Inl e, db')
                | None \<Rightarrow> (Inr (map snd (sort_key fst saved)), db')))"

subsection \<open>The callbacks\<close>

text \<open>
  The three callbacks, as far as they run before they return to \<open>streamResponse\<close>: the
  update of the response row is sent to the store and joins the updates in flight, and
  the in-memory row of the map is updated by the chunk callback. The third component
  lists the calls the callbacks receive. A chunk is passed on to the caller at once, a
  completion or an error only when the store has acknowledged the update; a rejected
  update of a response row rejects a promise that nothing awaits, so it never reaches
  the \<^verbatim>\<open>try\<close> block, and the updates are taken to be accepted.
\<close>

type_synonym store_write = "database \<Rightarrow> database"

type_synonym issuer = "(string \<rightharpoonup> model_response) \<times> store_write list \<times> event list"

fun issue :: "event \<Rightarrow> issuer \<Rightarrow> issuer" where
  "issue (ModelChunk modelId chunk) (responseMap, writes, received) =
     (case responseMap modelId of
        Some response \<Rightarrow>
          (let updatedResponse = orEmpty (mr_response response) @ chunk
           in (responseMap(modelId \<mapsto> response\<lparr>mr_response := Some updatedResponse\<rparr>),
               writes @ [updateModelResponse (mr_id response)
                           (\<lambda>r. r\<lparr>mr_response := Some updatedResponse, mr_status := RStreaming\<rparr>)],
               received @ [ModelChunk modelId chunk]))
      | None \<Rightarrow> (responseMap, writes, received @ [ModelChunk modelId chunk]))"
| "issue (ModelComplete modelId m) (responseMap, writes, received) =
     (case responseMap modelId of
        Some response \<Rightarrow>
          (responseMap, writes @ [finalizeModelResponse (mr_id response) m],
           received @ [ModelComplete modelId m])
      | None \<Rightarrow> (responseMap, writes, received @ [ModelComplete modelId m]))"
| "issue (ModelError modelId e) (responseMap, writes, received) =
     (case responseMap modelId of
        Some response \<Rightarrow>
          (responseMap, writes @ [markResponseAsError (mr_id response) e],
           received @ [ModelError modelId e])
      | None \<Rightarrow> (responseMap, writes, received @ [ModelError modelId e]))"

text \<open>The updates land one after the other, each on the store the one before has left.\<close>

definition land :: "store_write list \<Rightarrow> database \<Rightarrow> database" where
  "land writes db = fold (\<lambda>w. w) writes db"

subsection \<open>The call\<close>

text \<open>
  The body of the \<^verbatim>\<open>try\<close> block. The arguments of \<open>streamMultipleResponses\<close> are
  evaluated first, so the session is read before any model is invoked. When the
  invocations have returned, the updates of the response rows are in flight; the last
  \<open>lateAtRead\<close> of them, in the order of landing, land after \<open>updateSessionMetrics\<close> has
  read the completed rows. The updates of the response rows and the writes to the
  session touch different tables, so only that read depends on how far the updates have
  got. The database of the result is the store once every update has landed.
\<close>

definition comparisonBody_on ::
  "store_run \<Rightarrow> string list \<Rightarrow> (nat \<Rightarrow> sdk_run) \<Rightarrow> nat list \<Rightarrow> string \<Rightarrow> string \<Rightarrow> string list
     \<Rightarrow> database \<Rightarrow> (error + unit) \<times> database \<times> event list" where
  "comparisonBody_on store models sdk schedule sessionId userId modelIds db =
     (case rejects store SetInProgress of
        Some e \<Rightarrow> (Inl e, db, [])
      | None \<Rightarrow>
          (case createResponses_on store (getAvailableModels models) sessionId modelIds
                  (updateSessionStatus sessionId SInProgress db) of
             (Inl e, db2) \<Rightarrow> (Inl e, db2, [])
           | (Inr rs, db2) \<Rightarrow>
               (case rejects store ReadSession of
                  Some e \<Rightarrow> (Inl e, db2, [])
                | None \<Rightarrow>
                    (case getSession sessionId userId db2 of
                       None \<Rightarrow> (Inl nullPrompt, db2, [])
                     | Some (session, _) \<Rightarrow>
                         (case fold issue
                                 (streamMultipleResponses models sdk schedule modelIds (cs_prompt session))
                                 (mkResponseMap rs, [], []) of
                            (responseMap, writes, received) \<Rightarrow>
                              (let inOrder = arrange (landing store) writes;
                                   early = take (length inOrder - lateAtRead store) inOrder;
                                   late = drop (length inOrder - lateAtRead store) inOrder;
                                   dbRead = land early db2
                               in case rejects store UpdateMetrics of
                                    Some e \<Rightarrow> (Inl e, land late dbRead, received)
                                  | None \<Rightarrow>
                                      (case rejects store SetCompleted of
                                         Some e \<Rightarrow>
                                           (Inl e, land late (updateSessionMetrics sessionId dbRead),
                                            received)
                                       | None \<Rightarrow>
                                           (Inr (),
                                            updateSessionStatus sessionId SCompleted
                                              (land late (updateSessionMetrics sessionId dbRead)),
                                            received))))))))"

text \<open>
  The \<^verbatim>\<open>catch\<close> block awaits its own status write before it throws the error it caught:
  when the store rejects that write, the rejection is what leaves the function.
\<close>

definition startComparisonStreaming_on ::
  "store_run \<Rightarrow> string list \<Rightarrow> (nat \<Rightarrow> sdk_run) \<Rightarrow> nat list \<Rightarrow> string \<Rightarrow> string \<Rightarrow> string list
     \<Rightarrow> database \<Rightarrow> (error + unit) \<times> database \<times> event list" where
  "startComparisonStreaming_on store models sdk schedule sessionId userId modelIds db =
     (case comparisonBody_on store models sdk schedule sessionId userId modelIds db of
        (Inl e, db', received) \<Rightarrow>
          (case rejects store SetFailed of
             Some e' \<Rightarrow> (Inl e', db', received)
           | None \<Rightarrow> (Inl e, updateSessionStatus sessionId SFailed db', received))
      | (Inr u, db', received) \<Rightarrow> (Inr u, db', received))"

section \<open>Notions used in the statements\<close>

text \<open>The model responses of a session whose status is completed.\<close>

definition completedOf :: "string \<Rightarrow> database \<Rightarrow> model_response list" where
  "completedOf sessionId db =
     filter (\<lambda>r. mr_sessionId r = sessionId \<and> mr_status r = RCompleted) (responses db)"

text \<open>The model responses of a session, and those it holds for one model.\<close>

definition responsesOf :: "string \<Rightarrow> database \<Rightarrow> model_response list" where
  "responsesOf sessionId db = filter (\<lambda>r. mr_sessionId r = sessionId) (responses db)"

definition responsesFor :: "string \<Rightarrow> string \<Rightarrow> database \<Rightarrow> model_response list" where
  "responsesFor sessionId modelId db =
     filter (\<lambda>r. mr_sessionId r = sessionId \<and> mr_modelId r = modelId) (responses db)"

fun isComplete :: "event \<Rightarrow> bool" where
  "isComplete (ModelComplete modelId m) = True"
| "isComplete e = False"

text \<open>
  The word count of a text, as the claim about the estimator reads it: the number of
  maximal runs of code units that are not white space. \<open>wordsFrom inWord\<close> scans the text
  and counts the runs that start in it; \<open>inWord\<close> tells whether the code unit before was
  part of a run.
\<close>

fun wordsFrom :: "bool \<Rightarrow> code_unit list \<Rightarrow> nat" where
  "wordsFrom inWord [] = 0"
| "wordsFrom inWord (c # cs) =
     (if isWhiteSpace c then wordsFrom False cs
      else (if inWord then 0 else 1) + wordsFrom True cs)"

definition wordCount :: "code_unit list \<Rightarrow> nat" where
  "wordCount text = wordsFrom False text"

section \<open>A sample deployment\<close>

text \<open>
  One user, one session and two OpenAI models; the first invocation streams four pieces
  of text (and one chunk without content), the second is refused by its provider.
\<close>

definition exSession :: comparison_session where
  "exSession = \<lparr> cs_id = ''s1'', cs_prompt = ''Explain recursion'', cs_status = SPending,
     cs_totalTokens = 0, cs_totalCost = 0, cs_averageResponseTime = 0, cs_createdAt = 1,
     cs_userId = ''u1'' \<rparr>"

definition exDb :: database where
  "exDb = \<lparr> sessions = [exSession], responses = [] \<rparr>"

definition okRun :: sdk_run where
  "okRun = \<lparr> getNumTokens = (\<lambda>t. Some (int (length t))),
     streamContents = [''Rec'', ''ursion'', [], '' is...'', ''done''],
     streamThrows = None, elapsedMs = 900 \<rparr>"

definition failRun :: sdk_run where
  "failRun = \<lparr> getNumTokens = (\<lambda>t. None), streamContents = [],
     streamThrows = Some ''rate limit exceeded'', elapsedMs = 5 \<rparr>"

definition exSdk :: "nat \<Rightarrow> sdk_run" where
  "exSdk k = (if k = 0 then okRun else failRun)"

definition exModels :: "string list" where
  "exModels = initializeModels
     \<lparr>OPENAI_API_KEY = Some ''sk'', ANTHROPIC_API_KEY = None, GOOGLE_API_KEY = None\<rparr>"

text \<open>A stored session with one completed and one failed response.\<close>

definition exRow :: "nat \<Rightarrow> string \<Rightarrow> response_status \<Rightarrow> model_response" where
  "exRow i modelId st =
     \<lparr> mr_id = i, mr_modelId = modelId, mr_provider = ''openai'', mr_response = Some ''text'',
       mr_status = st, mr_inputTokens = Some 5, mr_outputTokens = Some 8,
       mr_cost = Some 0.0002, mr_responseTimeMs = Some 900, mr_errorMessage = None,
       mr_sessionId = ''s1'' \<rparr>"

definition exStored :: database where
  "exStored = \<lparr> sessions = [exSession],
                 responses = [exRow 1 ''gpt-4'' RCompleted, exRow 2 ''gpt-3.5-turbo'' RError] \<rparr>"

text \<open>A second session, of another user, and a session whose prompt is 100 letters and three dots.\<close>

definition exOther :: comparison_session where
  "exOther = exSession\<lparr>cs_id := ''s2'', cs_userId := ''u2''\<rparr>"

definition exTwoUsers :: database where
  "exTwoUsers = \<lparr>sessions = [exSession, exOther], responses = []\<rparr>"

definition exLongPrompt :: string where
  "exLongPrompt = replicate 100 CHR ''a'' @ ''...''"

definition exLongDb :: database where
  "exLongDb = \<lparr>sessions = [exSession\<lparr>cs_prompt := exLongPrompt\<rparr>], responses = []\<rparr>"

subsection \<open>Sample stores\<close>

text \<open>
  A store that accepts every call and lets every update land in the order of issue
  before the next call is made; two stores in which one update of a response row
  overtakes the update issued just before it; and stores that reject awaited calls.
\<close>

definition promptStore :: store_run where
  "promptStore = \<lparr> rejects = (\<lambda>c. None), saveOrder = [], landing = [], lateAtRead = 0 \<rparr>"

definition ioError :: error where
  "ioError = Error ''SQLITE_IOERR: disk I/O error''"

definition busyError :: error where
  "busyError = Error ''SQLITE_BUSY: database is locked''"

text \<open>
  With the schedule \<open>[1, 0, 0]\<close> and the two models of the sample deployment the updates
  are issued in this order: the error of the second model, the four chunks of the first,
  its completion. In \<open>completionFirst\<close> the completion lands before the update of the
  last chunk, in \<open>lastChunkFirst\<close> the update of the last chunk lands before the update
  of the chunk before it.
\<close>

definition completionFirst :: store_run where
  "completionFirst = promptStore\<lparr>landing := [0, 0, 0, 0, 1]\<rparr>"

definition lastChunkFirst :: store_run where
  "lastChunkFirst = promptStore\<lparr>landing := [0, 0, 0, 1]\<rparr>"

definition metricsRejected :: store_run where
  "metricsRejected = promptStore\<lparr>rejects := (\<lambda>c. if c = UpdateMetrics then Some ioError else None)\<rparr>"

definition handlerRejected :: store_run where
  "handlerRejected =
     promptStore\<lparr>rejects := (\<lambda>c. if c = UpdateMetrics then Some ioError
                                  else if c = SetFailed then Some busyError else None)\<rparr>"

section \<open>Notions used in the proofs\<close>

text \<open>
  The status a callback leaves in the row it writes, the chunks among a sequence of
  calls that are addressed to one model, and the row and map updates of \<open>onEvent\<close> by
  themselves.
\<close>

fun statusAfter :: "event \<Rightarrow> response_status" where
  "statusAfter (ModelChunk modelId chunk) = RStreaming"
| "statusAfter (ModelComplete modelId m) = RCompleted"
| "statusAfter (ModelError modelId e) = RError"

fun chunkOf :: "string \<Rightarrow> event \<Rightarrow> string list" where
  "chunkOf modelId (ModelChunk modelId' chunk) = (if modelId' = modelId then [chunk] else [])"
| "chunkOf modelId e = []"

definition chunksFor :: "string \<Rightarrow> event list \<Rightarrow> string list" where
  "chunksFor modelId es = concat (map (chunkOf modelId) es)"

fun rowUpdate :: "event \<Rightarrow> model_response \<Rightarrow> model_response \<Rightarrow> model_response" where
  "rowUpdate (ModelChunk modelId chunk) response r =
     r\<lparr>mr_response := Some (orEmpty (mr_response response) @ chunk), mr_status := RStreaming\<rparr>"
| "rowUpdate (ModelComplete modelId m) response r =
     r\<lparr>mr_inputTokens := Some (inputTokens m), mr_outputTokens := Some (outputTokens m),
       mr_cost := Some (cost m), mr_responseTimeMs := Some (responseTimeMs m),
       mr_status := RCompleted\<rparr>"
| "rowUpdate (ModelError modelId e) response r =
     r\<lparr>mr_status := RError, mr_errorMessage := Some e\<rparr>"

fun mapUpdate :: "event \<Rightarrow> model_response \<Rightarrow> model_response" where
  "mapUpdate (ModelChunk modelId chunk) response =
     response\<lparr>mr_response := Some (orEmpty (mr_response response) @ chunk)\<rparr>"
| "mapUpdate e response = response"

text \<open>The last call of an invocation: completion, or the error.\<close>

definition terminal :: "string list \<Rightarrow> sdk_run \<Rightarrow> string \<Rightarrow> string \<Rightarrow> callback" where
  "terminal models sdk modelId prompt = last (streamResponse models sdk modelId prompt)"

section \<open>Session aggregates\<close>

lemma fold_add_sum_list:
  "fold (\<lambda>r sum. sum + f r) xs (a::'a::comm_monoid_add) = a + sum_list (map f xs)"
  by (induction xs arbitrary: a) (simp_all add: add.assoc)

lemma fold_add2_sum_list:
  "fold (\<lambda>r sum. sum + f r + g r) xs (a::int) = a + sum_list (map (\<lambda>r. f r + g r) xs)"
  by (induction xs arbitrary: a) (simp_all add: add.assoc)

lemma updateSessionMetrics_sessions:
  "sessions (updateSessionMetrics sid db) =
     map (\<lambda>s. if cs_id s = sid
               then s\<lparr>cs_totalTokens := (\<Sum>r\<leftarrow>completedOf sid db. orZero (mr_inputTokens r) + orZero (mr_outputTokens r)),
                      cs_totalCost := (\<Sum>r\<leftarrow>completedOf sid db. orZero (mr_cost r)),
                      cs_averageResponseTime :=
                        (if completedOf sid db = [] then 0
                         else real_of_int (\<Sum>r\<leftarrow>completedOf sid db. orZero (mr_responseTimeMs r))
                                / real (length (completedOf sid db)))\<rparr>
               else s) (sessions db)"
  by (simp add: updateSessionMetrics_def completedOf_def Let_def fold_add_sum_list fold_add2_sum_list)

lemma updateSessionMetrics_responses [simp]:
  "responses (updateSessionMetrics sid db) = responses db"
  by (simp add: updateSessionMetrics_def Let_def)

lemma completedOf_drop_errors:
  "completedOf sid (db\<lparr>responses := filter (\<lambda>r. mr_status r \<noteq> RError) (responses db)\<rparr>)
     = completedOf sid db"
  by (auto simp: completedOf_def intro: filter_cong)

text \<open>
  Claim C2. After \<open>updateSessionMetrics\<close> every stored session with the given identifier
  has: \<open>totalTokens\<close> the sum of input plus output tokens over exactly the completed
  responses of that session, \<open>totalCost\<close> the sum of their costs, and
  \<open>averageResponseTime\<close> the mean of their response times, or 0 when none is completed
  (a null column counts as 0, as \<^verbatim>\<open>|| 0\<close> makes it). Responses in status error
  contribute nothing: deleting them from the store leaves the result unchanged.
\<close>

theorem updateSessionMetrics_aggregates:
  assumes "s \<in> set (sessions (updateSessionMetrics sid db))" and "cs_id s = sid"
  shows "cs_totalTokens s = (\<Sum>r\<leftarrow>completedOf sid db. orZero (mr_inputTokens r) + orZero (mr_outputTokens r))
       \<and> cs_totalCost s = (\<Sum>r\<leftarrow>completedOf sid db. orZero (mr_cost r))
       \<and> cs_averageResponseTime s =
           (if completedOf sid db = [] then 0
            else real_of_int (\<Sum>r\<leftarrow>completedOf sid db. orZero (mr_responseTimeMs r))
                   / real (length (completedOf sid db)))
       \<and> sessions (updateSessionMetrics sid
            (db\<lparr>responses := filter (\<lambda>r. mr_status r \<noteq> RError) (responses db)\<rparr>))
           = sessions (updateSessionMetrics sid db)"
proof -
  let ?upd = "\<lambda>x. x\<lparr>cs_totalTokens := (\<Sum>r\<leftarrow>completedOf sid db. orZero (mr_inputTokens r) + orZero (mr_outputTokens r)),
                      cs_totalCost := (\<Sum>r\<leftarrow>completedOf sid db. orZero (mr_cost r)),
                      cs_averageResponseTime :=
                        (if completedOf sid db = [] then 0
                         else real_of_int (\<Sum>r\<leftarrow>completedOf sid db. orZero (mr_responseTimeMs r))
                                / real (length (completedOf sid db)))\<rparr>"
  from assms(1) have "s \<in> (\<lambda>x. if cs_id x = sid then ?upd x else x) ` set (sessions db)"
    by (simp add: updateSessionMetrics_sessions)
  then obtain x where s: "s = (if cs_id x = sid then ?upd x else x)"
    by (rule imageE)
  have "cs_id x = sid" using s assms(2) by (cases "cs_id x = sid") simp_all
  then have s': "s = ?upd x" using s by simp
  have "sessions (updateSessionMetrics sid
            (db\<lparr>responses := filter (\<lambda>r. mr_status r \<noteq> RError) (responses db)\<rparr>))
           = sessions (updateSessionMetrics sid db)"
    unfolding updateSessionMetrics_sessions completedOf_drop_errors by simp
  then show ?thesis by (simp add: s')
qed

theorem updateSessionMetrics_aggregates_witness:
  "exSession\<lparr>cs_totalTokens := 13, cs_totalCost := 0.0002, cs_averageResponseTime := 900\<rparr>
      \<in> set (sessions (updateSessionMetrics ''s1'' exStored))
   \<and> completedOf ''s1'' exStored = [exRow 1 ''gpt-4'' RCompleted]"
proof -
  have c: "completedOf ''s1'' exStored = [exRow 1 ''gpt-4'' RCompleted]"
    by (simp add: completedOf_def exStored_def exRow_def)
  have m: "exSession\<lparr>cs_totalTokens := 13, cs_totalCost := 0.0002, cs_averageResponseTime := 900\<rparr>
      \<in> set (sessions (updateSessionMetrics ''s1'' exStored))"
    by (simp add: updateSessionMetrics_def Let_def exStored_def exRow_def exSession_def orZero_def)
  have i: "cs_id (exSession\<lparr>cs_totalTokens := 13, cs_totalCost := 0.0002, cs_averageResponseTime := 900\<rparr>) = ''s1''"
    by (simp add: exSession_def)
  from updateSessionMetrics_aggregates [OF m i] c m show ?thesis by simp
qed

section \<open>Token estimator\<close>

subsection \<open>The pieces of the trimmed text and the word count\<close>

lemma wordsFrom_white: "\<forall>c\<in>set ws. isWhiteSpace c \<Longrightarrow> wordsFrom b ws = 0"
  by (induction ws arbitrary: b) simp_all

lemma wordsFrom_append_white:
  "\<forall>c\<in>set ws. isWhiteSpace c \<Longrightarrow> wordsFrom b (xs @ ws) = wordsFrom b xs"
  by (induction xs arbitrary: b) (simp_all add: wordsFrom_white)

lemma wordsFrom_dropWhile: "wordsFrom False (dropWhile isWhiteSpace xs) = wordsFrom False xs"
  by (induction xs) simp_all

lemma wordsFrom_after_white:
  "r \<noteq> [] \<Longrightarrow> isWhiteSpace (hd r) \<Longrightarrow> wordsFrom b r = wordsFrom False (dropWhile isWhiteSpace r)"
  by (cases r) (simp_all add: wordsFrom_dropWhile)

lemma wordsFrom_word:
  "w \<noteq> [] \<Longrightarrow> \<forall>c\<in>set w. \<not> isWhiteSpace c
     \<Longrightarrow> wordsFrom b (w @ r) = (if b then 0 else 1) + wordsFrom True r"
proof (induction w arbitrary: b)
  case Nil
  then show ?case by simp
next
  case (Cons c w)
  show ?case
  proof (cases "w = []")
    case True
    then show ?thesis using Cons.prems by simp
  next
    case False
    then have "wordsFrom True (w @ r) = wordsFrom True r"
      using Cons.IH [of True] Cons.prems by simp
    then show ?thesis using Cons.prems by simp
  qed
qed

lemma splitWs_length:
  "s \<noteq> [] \<Longrightarrow> \<not> isWhiteSpace (hd s) \<Longrightarrow> \<not> isWhiteSpace (last s)
     \<Longrightarrow> length (splitWs s) = wordsFrom False s"
proof (induction s rule: splitWs.induct)
  case (1 s)
  define w where "w = takeWhile (\<lambda>c. \<not> isWhiteSpace c) s"
  define r where "r = dropWhile (\<lambda>c. \<not> isWhiteSpace c) s"
  have s: "s = w @ r" by (simp add: w_def r_def)
  have w1: "w \<noteq> []" using "1.prems"(1,2) by (cases s) (simp_all add: w_def)
  have w2: "\<forall>c\<in>set w. \<not> isWhiteSpace c" by (auto simp: w_def dest: set_takeWhileD)
  note w = w1 w2
  have count: "wordsFrom False s = 1 + wordsFrom True r"
    using wordsFrom_word [OF w, of False r] s by simp
  have unfold: "splitWs s = (if r = [] then [w] else w # splitWs (dropWhile isWhiteSpace r))"
    unfolding r_def w_def by (rule splitWs.simps)
  show ?case
  proof (cases "r = []")
    case True
    then have "splitWs s = [w]" using unfold by (simp only: if_True simp_thms)
    then show ?thesis using count True by simp
  next
    case False
    define r' where "r' = dropWhile isWhiteSpace r"
    have hdr: "isWhiteSpace (hd r)" using hd_dropWhile [of "\<lambda>c. \<not> isWhiteSpace c" s] False by (simp add: r_def)
    have lastr: "last r = last s" using s False by simp
    then have "\<not> isWhiteSpace (last r)" using "1.prems"(3) by simp
    then have "\<exists>c\<in>set r. \<not> isWhiteSpace c" using False last_in_set by blast
    then have ne: "r' \<noteq> []" by (simp add: r'_def dropWhile_eq_Nil_conv)
    have hd': "\<not> isWhiteSpace (hd r')" using hd_dropWhile [of isWhiteSpace r] ne by (simp add: r'_def)
    have "last r = last (takeWhile isWhiteSpace r @ r')" by (simp add: r'_def)
    also have "\<dots> = last r'" using ne by (rule last_appendR)
    finally have "last r = last r'" .
    then have last': "\<not> isWhiteSpace (last r')" using lastr "1.prems"(3) by simp
    have IH: "length (splitWs r') = wordsFrom False r'"
      using "1.IH" [folded r_def r'_def, OF False ne hd' last'] .
    have "splitWs s = w # splitWs r'"
      using False unfold by (simp only: r'_def if_False simp_thms)
    then have "length (splitWs s) = 1 + wordsFrom False r'" using IH by simp
    also have "wordsFrom False r' = wordsFrom True r"
      using wordsFrom_after_white [OF False hdr, of True] by (simp add: r'_def)
    finally show ?thesis using count by simp
  qed
qed

lemma trim_words:
  assumes "\<exists>c\<in>set t. \<not> isWhiteSpace c"
  shows "length (splitWs (trim t)) = wordCount t"
proof -
  define u where "u = dropWhile isWhiteSpace t"
  define v where "v = rev (dropWhile isWhiteSpace (rev u))"
  define z where "z = rev (takeWhile isWhiteSpace (rev u))"
  have une: "u \<noteq> []" using assms by (simp add: u_def dropWhile_eq_Nil_conv)
  have hdu: "\<not> isWhiteSpace (hd u)" using hd_dropWhile [of isWhiteSpace t] une by (simp add: u_def)
  have "rev (takeWhile isWhiteSpace (rev u) @ dropWhile isWhiteSpace (rev u)) = u"
    by (simp only: takeWhile_dropWhile_id rev_rev_ident)
  then have u: "u = v @ z" by (simp only: rev_append v_def z_def)
  have z: "\<forall>c\<in>set z. isWhiteSpace c" by (auto simp: z_def dest: set_takeWhileD)
  have "hd u \<in> set (rev u)" using une by simp
  then have d: "dropWhile isWhiteSpace (rev u) \<noteq> []"
    using hdu by (auto simp: dropWhile_eq_Nil_conv)
  then have vne: "v \<noteq> []" by (simp add: v_def)
  have hdv: "\<not> isWhiteSpace (hd v)" using hdu u vne by simp
  have "last v = hd (dropWhile isWhiteSpace (rev u))"
    using d by (simp add: v_def last_rev)
  then have lastv: "\<not> isWhiteSpace (last v)" using hd_dropWhile [OF d] by simp
  have "trim t = v" by (simp add: trim_def v_def u_def)
  then have "length (splitWs (trim t)) = wordsFrom False v"
    using splitWs_length [OF vne hdv lastv] by simp
  also have "\<dots> = wordsFrom False u" using wordsFrom_append_white [OF z, of False v] u by simp
  also have "\<dots> = wordsFrom False t" by (simp add: u_def wordsFrom_dropWhile)
  finally show ?thesis by (simp add: wordCount_def)
qed

lemma trim_white:
  assumes "\<forall>c\<in>set t. isWhiteSpace c"
  shows "splitWs (trim t) = [[]]"
proof -
  have d: "dropWhile isWhiteSpace t = []" using assms dropWhile_eq_Nil_conv by blast
  have "trim t = []" by (simp only: trim_def d rev.simps dropWhile.simps)
  then show ?thesis by (subst splitWs.simps) simp
qed

lemma wordCount_pos: "\<exists>c\<in>set t. \<not> isWhiteSpace c \<Longrightarrow> 1 \<le> wordCount t"
proof -
  assume a: "\<exists>c\<in>set t. \<not> isWhiteSpace c"
  have "splitWs (trim t) \<noteq> []" by (subst splitWs.simps) simp
  then have "1 \<le> length (splitWs (trim t))" by (cases "splitWs (trim t)") simp_all
  then show ?thesis using trim_words [OF a] by simp
qed

subsection \<open>The estimate\<close>

text \<open>
  Claim C8, as stated, fails on two kinds of text. On the empty text the guard at the head
  of \<open>estimateTokens\<close> returns 0, which is not at least 1. On a text that is not empty
  and holds white space only, such as a single space, the trimmed text is empty and
  \<^verbatim>\<open>split\<close> makes one empty piece of it, so the code counts one word where the text has
  none and returns 2, while the larger of the two estimates of the claim is 1.
\<close>

theorem estimateTokens_counterexample:
  "estimateTokens [] = 0 \<and> \<not> 1 \<le> estimateTokens []
   \<and> estimateTokens (codeUnits '' '') = 2
   \<and> wordCount (codeUnits '' '') = 0
   \<and> max \<lceil>real (wordCount (codeUnits '' '')) * 1.3\<rceil> \<lceil>real (length (codeUnits '' '')) / 3.5\<rceil> = 1"
  by code_simp

text \<open>
  Claim C8, amended. For the empty text the estimator returns 0. For every text that
  holds a code unit that is not white space it returns the larger of the word count
  times 1.3 rounded up and the character count divided by 3.5 rounded up, where a word is
  a maximal run of code units that are not white space. The result is at least 1 for
  every text that is not empty. The theorem also gives the value for a text that is not
  empty and holds white space only, where the code counts one word: the larger of 2 and
  the character count divided by 3.5 rounded up.
\<close>

theorem estimateTokens_value:
  "estimateTokens text =
     (if text = [] then 0
      else if \<forall>c\<in>set text. isWhiteSpace c then max 2 \<lceil>real (length text) / 3.5\<rceil>
      else max \<lceil>real (wordCount text) * 1.3\<rceil> \<lceil>real (length text) / 3.5\<rceil>)
   \<and> (text \<noteq> [] \<longrightarrow> 1 \<le> estimateTokens text)"
proof (cases "text = []")
  case True
  then show ?thesis by (simp add: estimateTokens_def)
next
  case ne: False
  define c where "c = \<lceil>real (length text) / 3.5\<rceil>"
  show ?thesis
  proof (cases "\<forall>c\<in>set text. isWhiteSpace c")
    case True
    have "\<lceil>1.3 :: real\<rceil> = 2" by linarith
    then have "estimateTokens text = max 2 c"
      using ne trim_white [OF True] by (simp add: estimateTokens_def Let_def c_def)
    then show ?thesis using ne True by (simp add: c_def)
  next
    case False
    then have ex: "\<exists>c\<in>set text. \<not> isWhiteSpace c" by simp
    define w where "w = \<lceil>real (wordCount text) * 1.3\<rceil>"
    have "1 \<le> real (wordCount text) * 1.3" using wordCount_pos [OF ex] by simp
    then have w1: "1 \<le> w" unfolding w_def by linarith
    have "estimateTokens text = max (max w c) 1"
      using ne trim_words [OF ex] by (simp add: estimateTokens_def Let_def w_def c_def)
    also have "\<dots> = max w c" using w1 by simp
    finally have e: "estimateTokens text = max w c" .
    then have "1 \<le> estimateTokens text" using w1 by simp
    moreover have "(\<forall>c\<in>set text. isWhiteSpace c) = False" using False by simp
    ultimately show ?thesis using ne e by (simp only: w_def c_def if_False simp_thms)
  qed
qed

theorem estimateTokens_value_witness:
  "estimateTokens (codeUnits ''a b c d'') = 6
   \<and> estimateTokens [0x61, 0x3000, 0x62] = 3
   \<and> estimateTokens (codeUnits '' a b '') = 3
   \<and> estimateTokens [0x2028, 0x0009] = 2
   \<and> estimateTokens [] = 0"
proof -
  let ?a = "codeUnits ''a b c d''"
  let ?b = "[0x61, 0x3000, 0x62] :: code_unit list"
  let ?c = "codeUnits '' a b ''"
  let ?d = "[0x2028, 0x0009] :: code_unit list"
  have a: "?a \<noteq> []" "(\<forall>c\<in>set ?a. isWhiteSpace c) = False" "wordCount ?a = 4" "length ?a = 7"
    by code_simp+
  have b: "?b \<noteq> []" "(\<forall>c\<in>set ?b. isWhiteSpace c) = False" "wordCount ?b = 2"
    by code_simp+
  have c: "?c \<noteq> []" "(\<forall>c\<in>set ?c. isWhiteSpace c) = False" "wordCount ?c = 2" "length ?c = 5"
    by code_simp+
  have d: "?d \<noteq> []" "(\<forall>c\<in>set ?d. isWhiteSpace c) = True"
    by code_simp+
  have "estimateTokens ?a = 6" using estimateTokens_value [of ?a] a by simp
  moreover have "estimateTokens ?b = 3" using estimateTokens_value [of ?b] b by simp
  moreover have "estimateTokens ?c = 3" using estimateTokens_value [of ?c] c by simp
  moreover have "estimateTokens ?d = 2" using estimateTokens_value [of ?d] d by simp
  moreover have "estimateTokens [] = 0" using estimateTokens_value [of "[]"] by simp
  ultimately show ?thesis by simp
qed

section \<open>Reading sessions\<close>

text \<open>
  Claim C9. \<open>getComparison\<close> fails with the error \<open>Session ... not found\<close> exactly when
  no stored session has both the given identifier and the given owner, and whatever it
  returns is the view of a session with that identifier owned by that user: a session of
  another user is never returned.
\<close>

theorem getComparison_scoped:
  "(getComparison sid uid db = Inl (Error (''Session '' @ sid @ '' not found''))
      \<longleftrightarrow> \<not> (\<exists>s \<in> set (sessions db). cs_id s = sid \<and> cs_userId s = uid))
   \<and> (\<forall>v. getComparison sid uid db = Inr v \<longrightarrow>
          (\<exists>s \<in> set (sessions db). cs_id s = sid \<and> cs_userId s = uid
                \<and> v = sessionView s (filter (\<lambda>r. mr_sessionId r = sid) (responses db))))"
proof (cases "find (\<lambda>s. cs_id s = sid \<and> cs_userId s = uid) (sessions db)")
  case None
  then have "\<not> (\<exists>s \<in> set (sessions db). cs_id s = sid \<and> cs_userId s = uid)"
    by (simp add: find_None_iff)
  with None show ?thesis by (simp add: getComparison_def getSession_def)
next
  case (Some s)
  then have "s \<in> set (sessions db)" "cs_id s = sid" "cs_userId s = uid"
    by (auto simp: find_Some_iff)
  with Some show ?thesis by (auto simp: getComparison_def getSession_def)
qed

theorem getComparison_scoped_witness:
  "getComparison ''s2'' ''u1'' exTwoUsers = Inl (Error ''Session s2 not found'')
   \<and> getComparison ''s2'' ''u2'' exTwoUsers = Inr (sessionView exOther [])"
proof -
  have "\<not> (\<exists>s \<in> set (sessions exTwoUsers). cs_id s = ''s2'' \<and> cs_userId s = ''u1'')"
    by (simp add: exTwoUsers_def exSession_def exOther_def)
  moreover have "getComparison ''s2'' ''u2'' exTwoUsers = Inr (sessionView exOther [])"
    by (simp add: getComparison_def getSession_def exTwoUsers_def exSession_def exOther_def)
  ultimately show ?thesis
    using getComparison_scoped [of "''s2''" "''u1''" exTwoUsers]
    by simp
qed

subsection \<open>The history listing\<close>

lemma historyItem_prompt:
  "hi_prompt (historyItem (s, rs)) =
     (if length (cs_prompt s) \<le> 100 then cs_prompt s else take 100 (cs_prompt s) @ ''...'')"
  by (simp add: historyItem_def)

lemma truncated_eq_iff:
  assumes "100 < length p"
  shows "take 100 p @ ''...'' = p \<longleftrightarrow> drop 100 p = ''...''"
proof
  assume "take 100 p @ ''...'' = p"
  then have "drop 100 (take 100 p @ ''...'') = drop 100 p" by simp
  then show "drop 100 p = ''...''" using assms by simp
next
  assume "drop 100 p = ''...''"
  then show "take 100 p @ ''...'' = p"
    using append_take_drop_id [of 100 p] by simp
qed

lemma exLongPrompt_length: "length exLongPrompt = 103"
  by (simp add: exLongPrompt_def)

lemma exLongPrompt_take: "take 100 exLongPrompt = replicate 100 CHR ''a''"
  by (simp add: exLongPrompt_def)

lemma exLong_sessions:
  "getSessions ''u1'' 20 0 exLongDb = [(exSession\<lparr>cs_prompt := exLongPrompt\<rparr>, [])]"
  by (simp add: getSessions_def exLongDb_def exSession_def)

text \<open>
  Claim C10, as stated, fails for a prompt of 100 characters followed by three dots: it
  is longer than 100 characters, and the history listing returns it in full, since the
  first 100 characters followed by the marker are the prompt itself.
\<close>

theorem history_prompt_counterexample:
  "100 < length exLongPrompt
   \<and> map hi_prompt (getComparisonHistory ''u1'' 20 0 exLongDb) = [exLongPrompt]"
proof -
  have "hi_prompt (historyItem (exSession\<lparr>cs_prompt := exLongPrompt\<rparr>, [])) = exLongPrompt"
    by (simp add: historyItem_prompt exLongPrompt_length exLongPrompt_take) (simp add: exLongPrompt_def)
  then show ?thesis
    by (simp add: getComparisonHistory_def exLong_sessions exLongPrompt_length)
qed

text \<open>
  Claim C10, amended. Every item of \<open>getComparisonHistory\<close> comes from a stored session
  of that user; its prompt field is the prompt when that has at most 100 characters and
  otherwise the first 100 characters followed by three dots. For a prompt longer than 100
  characters the field differs from the full prompt, except when the prompt is 100
  characters followed by exactly three dots.
\<close>

theorem history_prompt_truncated:
  assumes "item \<in> set (getComparisonHistory uid limit offset db)"
  shows "\<exists>s \<in> set (sessions db). cs_userId s = uid \<and> hi_id item = cs_id s
           \<and> hi_prompt item =
               (if length (cs_prompt s) \<le> 100 then cs_prompt s
                else take 100 (cs_prompt s) @ ''...'')
           \<and> (100 < length (cs_prompt s) \<longrightarrow>
                (hi_prompt item = cs_prompt s \<longleftrightarrow> drop 100 (cs_prompt s) = ''...''))"
proof -
  from assms obtain s rs where sr: "(s, rs) \<in> set (getSessions uid limit offset db)"
    and item: "item = historyItem (s, rs)"
    by (auto simp: getComparisonHistory_def)
  from sr have "s \<in> set (take limit (drop offset
          (rev (sort_key cs_createdAt (filter (\<lambda>s. cs_userId s = uid) (sessions db))))))"
    by (auto simp: getSessions_def)
  then have "s \<in> set (rev (sort_key cs_createdAt (filter (\<lambda>s. cs_userId s = uid) (sessions db))))"
    by (meson in_set_dropD in_set_takeD)
  then have s: "s \<in> set (sessions db)" "cs_userId s = uid" by auto
  have i: "hi_id item = cs_id s" by (simp add: item historyItem_def)
  have p: "hi_prompt item =
               (if length (cs_prompt s) \<le> 100 then cs_prompt s
                else take 100 (cs_prompt s) @ ''...'')"
    by (simp only: item historyItem_prompt)
  have q: "100 < length (cs_prompt s) \<longrightarrow>
                (hi_prompt item = cs_prompt s \<longleftrightarrow> drop 100 (cs_prompt s) = ''...'')"
    using truncated_eq_iff [of "cs_prompt s"] by (simp add: item historyItem_prompt)
  show ?thesis
    by (rule bexI [OF _ s(1)]) (intro conjI s(2) i p q)
qed

theorem history_prompt_truncated_witness:
  "hd (getComparisonHistory ''u1'' 20 0 exDb) \<in> set (getComparisonHistory ''u1'' 20 0 exDb)
  \<and> hi_prompt (hd (getComparisonHistory ''u1'' 20 0 exDb)) = ''Explain recursion''"
proof -
  have b: "hd (getComparisonHistory ''u1'' 20 0 exDb) \<in> set (getComparisonHistory ''u1'' 20 0 exDb)"
    by (simp add: getComparisonHistory_def getSessions_def exDb_def exSession_def)
  from history_prompt_truncated [OF b]
  obtain s where "s \<in> set (sessions exDb)"
    and "hi_prompt (hd (getComparisonHistory ''u1'' 20 0 exDb)) =
               (if length (cs_prompt s) \<le> 100 then cs_prompt s
                else take 100 (cs_prompt s) @ ''...'')"
    by blast
  then have "hi_prompt (hd (getComparisonHistory ''u1'' 20 0 exDb)) = ''Explain recursion''"
    by (simp add: exDb_def exSession_def)
  with b show ?thesis by simp
qed

section \<open>Session status\<close>

lemma updateSessionStatus_sessions:
  "sessions (updateSessionStatus sid st db) =
     map (\<lambda>s. if cs_id s = sid then s\<lparr>cs_status := st\<rparr> else s) (sessions db)"
  by (simp add: updateSessionStatus_def)

lemma updateSessionStatus_responses [simp]:
  "responses (updateSessionStatus sid st db) = responses db"
  by (simp add: updateSessionStatus_def)

lemma updateSessionStatus_ids [simp]:
  "map cs_id (sessions (updateSessionStatus sid st db)) = map cs_id (sessions db)"
  by (rule nth_equalityI) (simp_all add: updateSessionStatus_sessions)

lemma updateSessionStatus_sets:
  assumes "s \<in> set (sessions (updateSessionStatus sid st db))" and "cs_id s = sid"
  shows "cs_status s = st"
proof -
  from assms(1) have "s \<in> (\<lambda>x. if cs_id x = sid then x\<lparr>cs_status := st\<rparr> else x) ` set (sessions db)"
    by (simp add: updateSessionStatus_sessions)
  then obtain x where s: "s = (if cs_id x = sid then x\<lparr>cs_status := st\<rparr> else x)"
    by (rule imageE)
  have "cs_id x = sid" using s assms(2) by (cases "cs_id x = sid") simp_all
  then show ?thesis using s by simp
qed

lemma createModelResponse_sessions [simp]:
  "sessions (snd (createModelResponse sid m p db)) = sessions db"
  by (simp add: createModelResponse_def Let_def)

lemma createResponses_sessions [simp]:
  "sessions (snd (snd (createResponses av sid ms db))) = sessions db"
proof (induction ms arbitrary: db)
  case Nil
  then show ?case by simp
next
  case (Cons m ms)
  show ?case
  proof (cases "find (\<lambda>i. mi_id i = m) av")
    case None
    obtain e rs db' where r: "createResponses av sid ms db = (e, rs, db')"
      by (cases "createResponses av sid ms db") auto
    then show ?thesis using None Cons [of db] by simp
  next
    case (Some model)
    obtain r db1 where c: "createModelResponse sid m (mi_provider model) db = (r, db1)"
      by (cases "createModelResponse sid m (mi_provider model) db")
    have "sessions db1 = sessions db"
      using createModelResponse_sessions [of sid m "mi_provider model" db] c by simp
    obtain e rs db2 where r: "createResponses av sid ms db1 = (e, rs, db2)"
      by (cases "createResponses av sid ms db1") auto
    then show ?thesis using Some c Cons [of db1] \<open>sessions db1 = sessions db\<close> by simp
  qed
qed

section \<open>Unknown model identifiers\<close>

text \<open>
  Claim C3 describes what \<open>streamResponse\<close> does with an identifier outside the registry:
  one error call, \<open>Model ... not found\<close>, for that model only (second part below). But
  \<open>startComparisonStreaming\<close> never gets that far: while creating the response rows it
  reads \<^verbatim>\<open>model.provider\<close> of the registry entry it did not find, the TypeError leaves
  the \<^verbatim>\<open>try\<close> block, the session is marked failed and no model is streamed (first part).
\<close>

theorem unknown_model_fails_call:
  "startComparisonStreaming exModels exSdk [] ''s1'' ''u1'' [''gpt-4'', ''no-such-model''] exDb
     = (Inl undefinedProvider,
        \<lparr>sessions = [exSession\<lparr>cs_status := SFailed\<rparr>],
          responses = [\<lparr> mr_id = 1, mr_modelId = ''gpt-4'', mr_provider = ''openai'',
                        mr_response = Some [], mr_status = RPending, mr_inputTokens = None,
                        mr_outputTokens = None, mr_cost = None, mr_responseTimeMs = None,
                        mr_errorMessage = None, mr_sessionId = ''s1'' \<rparr>]\<rparr>,
        [])
   \<and> filter (\<lambda>e. eventModel e = ''no-such-model'')
        (streamMultipleResponses exModels exSdk [] [''gpt-4'', ''no-such-model''] ''Explain recursion'')
     = [ModelError ''no-such-model'' ''Model no-such-model not found'']"
  by code_simp

section \<open>Interleaving\<close>

lemma in_set_tl: "x \<in> set (tl xs) \<Longrightarrow> x \<in> set xs"
  by (cases xs) simp_all

lemma interleave_skip:
  assumes "k < length qs" and "\<forall>e \<in> set (qs ! k). \<not> P e"
  shows "filter P (interleave (k # s) qs) = filter P (interleave s (qs[k := tl (qs ! k)]))"
proof (cases "qs ! k")
  case Nil
  then have "qs[k := tl (qs ! k)] = qs" by (simp add: list_update_same_conv assms(1))
  with Nil assms(1) show ?thesis by simp
next
  case (Cons e es)
  then have "\<not> P e" using assms(2) by simp
  with Cons assms(1) show ?thesis by simp
qed

lemma interleave_filter_agree:
  assumes "length qs = length qs'"
    and "\<forall>j<length qs. qs ! j = qs' ! j
            \<or> ((\<forall>e \<in> set (qs ! j). \<not> P e) \<and> (\<forall>e \<in> set (qs' ! j). \<not> P e))"
  shows "filter P (interleave s qs) = filter P (interleave s qs')"
  using assms
proof (induction s arbitrary: qs qs')
  case Nil
  have "map (filter P) qs = map (filter P) qs'"
  proof (rule nth_equalityI)
    show "length (map (filter P) qs) = length (map (filter P) qs')"
      using Nil.prems(1) by simp
  next
    fix j assume "j < length (map (filter P) qs)"
    then have j: "j < length qs" "j < length qs'" using Nil.prems(1) by simp_all
    from Nil.prems(2) j(1) have "filter P (qs ! j) = filter P (qs' ! j)"
      by (metis filter_False)
    with j show "map (filter P) qs ! j = map (filter P) qs' ! j" by simp
  qed
  then show ?case by (simp add: filter_concat)
next
  case (Cons k s)
  show ?case
  proof (cases "k < length qs")
    case False
    with Cons.prems(1) have "interleave (k # s) qs = interleave s qs"
      "interleave (k # s) qs' = interleave s qs'" by simp_all
    with Cons.IH [OF Cons.prems] show ?thesis by simp
  next
    case True
    then have k': "k < length qs'" using Cons.prems(1) by simp
    show ?thesis
    proof (cases "qs ! k = qs' ! k")
      case same: True
      show ?thesis
      proof (cases "qs ! k")
        case Nil
        with same True k' have "interleave (k # s) qs = interleave s qs"
          "interleave (k # s) qs' = interleave s qs'" by simp_all
        with Cons.IH [OF Cons.prems] show ?thesis by simp
      next
        case (Cons e es)
        have l: "length (qs[k := es]) = length (qs'[k := es])" using Cons.prems(1) by simp
        have a: "\<forall>j<length (qs[k := es]). qs[k := es] ! j = qs'[k := es] ! j
            \<or> ((\<forall>e \<in> set (qs[k := es] ! j). \<not> P e) \<and> (\<forall>e \<in> set (qs'[k := es] ! j). \<not> P e))"
        proof (intro allI impI)
          fix j assume "j < length (qs[k := es])"
          then have j: "j < length qs" "j < length qs'" using Cons.prems(1) by simp_all
          show "qs[k := es] ! j = qs'[k := es] ! j
            \<or> ((\<forall>e \<in> set (qs[k := es] ! j). \<not> P e) \<and> (\<forall>e \<in> set (qs'[k := es] ! j). \<not> P e))"
          proof (cases "j = k")
            case True
            with j show ?thesis by simp
          next
            case False
            with j Cons.prems(2) show ?thesis by simp
          qed
        qed
        have "interleave (k # s) qs = e # interleave s (qs[k := es])"
          "interleave (k # s) qs' = e # interleave s (qs'[k := es])"
          using Cons same True k' by simp_all
        with Cons.IH [OF l a] show ?thesis by simp
      qed
    next
      case differ: False
      with Cons.prems(2) True
      have free: "\<forall>e \<in> set (qs ! k). \<not> P e" "\<forall>e \<in> set (qs' ! k). \<not> P e" by blast+
      let ?q = "qs[k := tl (qs ! k)]" and ?q' = "qs'[k := tl (qs' ! k)]"
      have l: "length ?q = length ?q'" using Cons.prems(1) by simp
      have a: "\<forall>j<length ?q. ?q ! j = ?q' ! j
            \<or> ((\<forall>e \<in> set (?q ! j). \<not> P e) \<and> (\<forall>e \<in> set (?q' ! j). \<not> P e))"
      proof (intro allI impI)
        fix j assume "j < length ?q"
        then have j: "j < length qs" "j < length qs'" using Cons.prems(1) by simp_all
        show "?q ! j = ?q' ! j
            \<or> ((\<forall>e \<in> set (?q ! j). \<not> P e) \<and> (\<forall>e \<in> set (?q' ! j). \<not> P e))"
        proof (cases "j = k")
          case True
          have "\<forall>e \<in> set (tl (qs ! k)). \<not> P e" using free(1) by (blast dest: in_set_tl)
          moreover have "\<forall>e \<in> set (tl (qs' ! k)). \<not> P e" using free(2) by (blast dest: in_set_tl)
          ultimately show ?thesis using True j by simp
        next
          case False
          with j Cons.prems(2) show ?thesis by simp
        qed
      qed
      from interleave_skip [OF True free(1)] interleave_skip [OF k' free(2)] Cons.IH [OF l a]
      show ?thesis by simp
    qed
  qed
qed

lemma concat_only:
  assumes "k < length xss" and "\<forall>j<length xss. j \<noteq> k \<longrightarrow> xss ! j = []"
  shows "concat xss = xss ! k"
  using assms
proof (induction xss arbitrary: k)
  case Nil
  then show ?case by simp
next
  case (Cons x xss)
  show ?case
  proof (cases k)
    case 0
    have "\<forall>ys \<in> set xss. ys = []"
    proof
      fix ys assume "ys \<in> set xss"
      then obtain j where "j < length xss" "xss ! j = ys" by (auto simp: in_set_conv_nth)
      with Cons.prems(2) [rule_format, of "Suc j"] 0 show "ys = []" by simp
    qed
    then have "concat xss = []" by simp
    with 0 show ?thesis by simp
  next
    case (Suc k')
    from Cons.prems(2) [rule_format, of 0] Suc have "x = []" by simp
    moreover have "concat xss = xss ! k'"
    proof (rule Cons.IH)
      show "k' < length xss" using Cons.prems(1) Suc by simp
      show "\<forall>j<length xss. j \<noteq> k' \<longrightarrow> xss ! j = []"
        using Cons.prems(2) [rule_format, of "Suc j" for j] Suc by simp
    qed
    ultimately show ?thesis using Suc by simp
  qed
qed

lemma interleave_filter_single:
  assumes "k < length qs" and "\<forall>j<length qs. j \<noteq> k \<longrightarrow> (\<forall>e \<in> set (qs ! j). \<not> P e)"
  shows "filter P (interleave s qs) = filter P (qs ! k)"
  using assms
proof (induction s arbitrary: qs)
  case Nil
  have "concat (map (filter P) qs) = map (filter P) qs ! k"
  proof (rule concat_only)
    show "k < length (map (filter P) qs)" using Nil.prems(1) by simp
    show "\<forall>j<length (map (filter P) qs). j \<noteq> k \<longrightarrow> map (filter P) qs ! j = []"
      using Nil.prems(2) by (simp add: filter_empty_conv)
  qed
  then show ?case using Nil.prems(1) by (simp add: filter_concat)
next
  case (Cons i s)
  show ?case
  proof (cases "i < length qs")
    case False
    then have "interleave (i # s) qs = interleave s qs" by simp
    with Cons.IH [OF Cons.prems] show ?thesis by simp
  next
    case True
    show ?thesis
    proof (cases "i = k")
      case ik: True
      show ?thesis
      proof (cases "qs ! k")
        case Nil
        with ik True have "interleave (i # s) qs = interleave s qs" by simp
        with Cons.IH [OF Cons.prems] show ?thesis by simp
      next
        case (Cons e es)
        have "filter P (interleave s (qs[k := es])) = filter P (qs[k := es] ! k)"
        proof (rule Cons.IH)
          show "k < length (qs[k := es])" using Cons.prems(1) by simp
          show "\<forall>j<length (qs[k := es]). j \<noteq> k \<longrightarrow> (\<forall>e \<in> set (qs[k := es] ! j). \<not> P e)"
            using Cons.prems(2) by simp
        qed
        moreover have "interleave (i # s) qs = e # interleave s (qs[k := es])"
          using Cons ik True by simp
        ultimately show ?thesis using Cons Cons.prems(1) by simp
      qed
    next
      case nk: False
      then have free: "\<forall>e \<in> set (qs ! i). \<not> P e" using Cons.prems(2) True by simp
      have "filter P (interleave s (qs[i := tl (qs ! i)])) = filter P (qs[i := tl (qs ! i)] ! k)"
      proof (rule Cons.IH)
        show "k < length (qs[i := tl (qs ! i)])" using Cons.prems(1) by simp
        show "\<forall>j<length (qs[i := tl (qs ! i)]). j \<noteq> k \<longrightarrow> (\<forall>e \<in> set (qs[i := tl (qs ! i)] ! j). \<not> P e)"
        proof (intro allI impI)
          fix j assume j: "j < length (qs[i := tl (qs ! i)])" "j \<noteq> k"
          show "\<forall>e \<in> set (qs[i := tl (qs ! i)] ! j). \<not> P e"
          proof (cases "j = i")
            case True
            have "\<forall>e \<in> set (tl (qs ! i)). \<not> P e" using free by (blast dest: in_set_tl)
            with True j show ?thesis by simp
          next
            case False
            with j Cons.prems(2) show ?thesis by simp
          qed
        qed
      qed
      with interleave_skip [OF True free] nk show ?thesis by simp
    qed
  qed
qed

section \<open>Isolation of the invocations\<close>

lemma promises_length [simp]: "length (promises models sdk mids prompt) = length mids"
  by (simp add: promises_def)

lemma promises_nth:
  "k < length mids \<Longrightarrow>
     promises models sdk mids prompt ! k
       = map (forModel (mids ! k)) (streamResponse models (sdk k) (mids ! k) prompt)"
  by (simp add: promises_def nth_enumerate_eq)

lemma eventModel_forModel [simp]: "eventModel (forModel m c) = m"
  by (cases c) simp_all

lemma promises_models:
  assumes "k < length mids" and "e \<in> set (promises models sdk mids prompt ! k)"
  shows "eventModel e = mids ! k"
  using assms by (auto simp: promises_nth)

text \<open>
  Claim C7. Take two runs of \<open>streamMultipleResponses\<close> over the same list, prompt and
  timing in which the provider behaves differently only in the invocations of one model
  \<open>m\<close> (for instance it fails in one run and not in the other). Then the calls made for
  all other models are the same calls in the same order in both runs.
\<close>

theorem isolation:
  assumes "\<forall>k<length mids. mids ! k \<noteq> m \<longrightarrow> sdk k = sdk' k"
  shows "filter (\<lambda>e. eventModel e \<noteq> m) (streamMultipleResponses models sdk sched mids prompt)
           = filter (\<lambda>e. eventModel e \<noteq> m) (streamMultipleResponses models sdk' sched mids prompt)"
proof -
  let ?qs = "promises models sdk mids prompt" and ?qs' = "promises models sdk' mids prompt"
  have "filter (\<lambda>e. eventModel e \<noteq> m) (interleave sched ?qs)
           = filter (\<lambda>e. eventModel e \<noteq> m) (interleave sched ?qs')"
  proof (rule interleave_filter_agree)
    show "length ?qs = length ?qs'" by simp
    show "\<forall>j<length ?qs. ?qs ! j = ?qs' ! j
            \<or> ((\<forall>e \<in> set (?qs ! j). \<not> eventModel e \<noteq> m) \<and> (\<forall>e \<in> set (?qs' ! j). \<not> eventModel e \<noteq> m))"
    proof (intro allI impI)
      fix j assume "j < length ?qs"
      then have j: "j < length mids" by simp
      show "?qs ! j = ?qs' ! j
            \<or> ((\<forall>e \<in> set (?qs ! j). \<not> eventModel e \<noteq> m) \<and> (\<forall>e \<in> set (?qs' ! j). \<not> eventModel e \<noteq> m))"
      proof (cases "mids ! j = m")
        case True
        with j show ?thesis by (simp add: promises_nth)
      next
        case False
        with assms j have "sdk j = sdk' j" by simp
        with j show ?thesis by (simp add: promises_nth)
      qed
    qed
  qed
  then show ?thesis
    by (simp add: streamMultipleResponses_def)
qed

theorem isolation_witness:
  "filter (\<lambda>e. eventModel e \<noteq> ''gpt-3.5-turbo'')
      (streamMultipleResponses exModels exSdk [1, 0, 1, 0] [''gpt-4'', ''gpt-3.5-turbo''] ''Explain recursion'')
     = filter (\<lambda>e. eventModel e \<noteq> ''gpt-3.5-turbo'')
         (streamMultipleResponses exModels (\<lambda>k. okRun) [1, 0, 1, 0] [''gpt-4'', ''gpt-3.5-turbo''] ''Explain recursion'')
   \<and> streamMultipleResponses exModels exSdk [1, 0, 1, 0] [''gpt-4'', ''gpt-3.5-turbo''] ''Explain recursion''
       \<noteq> streamMultipleResponses exModels (\<lambda>k. okRun) [1, 0, 1, 0] [''gpt-4'', ''gpt-3.5-turbo''] ''Explain recursion''"
proof -
  have h: "\<forall>k<length [''gpt-4'', ''gpt-3.5-turbo'']. [''gpt-4'', ''gpt-3.5-turbo''] ! k \<noteq> ''gpt-3.5-turbo''
             \<longrightarrow> exSdk k = (\<lambda>k. okRun) k"
  proof (intro allI impI)
    fix k :: nat
    assume "k < length [''gpt-4'', ''gpt-3.5-turbo'']"
      and "[''gpt-4'', ''gpt-3.5-turbo''] ! k \<noteq> ''gpt-3.5-turbo''"
    then have "k = 0" by (cases k) simp_all
    then show "exSdk k = (\<lambda>k. okRun) k" by (simp add: exSdk_def)
  qed
  have d: "streamMultipleResponses exModels exSdk [1, 0, 1, 0] [''gpt-4'', ''gpt-3.5-turbo''] ''Explain recursion''
       \<noteq> streamMultipleResponses exModels (\<lambda>k. okRun) [1, 0, 1, 0] [''gpt-4'', ''gpt-3.5-turbo''] ''Explain recursion''"
    by code_simp
  from isolation [OF h] d show ?thesis by simp
qed

lemma interleave_set:
  "e \<in> set (interleave s qs) \<Longrightarrow> \<exists>q \<in> set qs. e \<in> set q"
proof (induction s arbitrary: qs e)
  case Nil
  then show ?case by auto
next
  case (Cons k s)
  show ?case
  proof (cases "k < length qs")
    case False
    with Cons.prems have "e \<in> set (interleave s qs)" by simp
    then show ?thesis by (rule Cons.IH)
  next
    case True
    show ?thesis
    proof (cases "qs ! k")
      case Nil
      with True Cons.prems have "e \<in> set (interleave s qs)" by simp
      then show ?thesis by (rule Cons.IH)
    next
      case (Cons x xs)
      have xk: "x # xs \<in> set qs" using nth_mem [OF True] Cons by simp
      from Cons True Cons.prems have "e = x \<or> e \<in> set (interleave s (qs[k := xs]))" by simp
      then show ?thesis
      proof
        assume "e = x"
        then have "e \<in> set (x # xs)" by simp
        with xk show ?thesis by blast
      next
        assume "e \<in> set (interleave s (qs[k := xs]))"
        then obtain q where q: "q \<in> set (qs[k := xs])" "e \<in> set q" using Cons.IH by blast
        from q(1) have "q = xs \<or> q \<in> set qs"
          using set_update_subset_insert [of qs k xs] by blast
        then show ?thesis
        proof
          assume "q = xs"
          with q(2) have "e \<in> set (x # xs)" by simp
          with xk show ?thesis by blast
        next
          assume "q \<in> set qs"
          with q(2) show ?thesis by blast
        qed
      qed
    qed
  qed
qed

text \<open>
  When no identifier is requested twice, the calls made for one model are those of its
  own invocation, whatever the timing; so the runs above agree on every other model even
  under different timings.
\<close>

lemma projection_distinct:
  assumes "distinct mids" and "k < length mids"
  shows "filter (\<lambda>e. eventModel e = mids ! k) (streamMultipleResponses models sdk sched mids prompt)
           = map (forModel (mids ! k)) (streamResponse models (sdk k) (mids ! k) prompt)"
proof -
  let ?qs = "promises models sdk mids prompt"
  have "filter (\<lambda>e. eventModel e = mids ! k) (interleave sched ?qs)
          = filter (\<lambda>e. eventModel e = mids ! k) (?qs ! k)"
  proof (rule interleave_filter_single)
    show "k < length ?qs" using assms(2) by simp
    show "\<forall>j<length ?qs. j \<noteq> k \<longrightarrow> (\<forall>e \<in> set (?qs ! j). \<not> eventModel e = mids ! k)"
    proof (intro allI impI ballI)
      fix j e assume j: "j < length ?qs" "j \<noteq> k" and e: "e \<in> set (?qs ! j)"
      from j have jl: "j < length mids" by simp
      from jl e have "eventModel e = mids ! j" by (rule promises_models)
      moreover have "mids ! j \<noteq> mids ! k"
        using assms jl j(2) by (simp add: nth_eq_iff_index_eq)
      ultimately show "\<not> eventModel e = mids ! k" by simp
    qed
  qed
  also have "\<dots> = map (forModel (mids ! k)) (streamResponse models (sdk k) (mids ! k) prompt)"
    using assms(2) by (simp add: promises_nth)
  finally show ?thesis by (simp add: streamMultipleResponses_def)
qed

lemma events_models:
  assumes "e \<in> set (streamMultipleResponses models sdk sched mids prompt)"
  shows "eventModel e \<in> set mids"
proof -
  from assms have "e \<in> set (interleave sched (promises models sdk mids prompt))"
    by (simp add: streamMultipleResponses_def)
  from interleave_set [OF this]
  obtain q where q: "q \<in> set (promises models sdk mids prompt)" "e \<in> set q"
    by blast
  from q(1) obtain k where k: "k < length mids" "promises models sdk mids prompt ! k = q"
    by (auto simp: in_set_conv_nth)
  with q(2) have "e \<in> set (promises models sdk mids prompt ! k)" by simp
  with k(1) have "eventModel e = mids ! k" by (rule promises_models)
  with k(1) show ?thesis by simp
qed

lemma isolation_any_timing:
  assumes "\<forall>k<length mids. mids ! k \<noteq> m \<longrightarrow> sdk k = sdk' k" and "distinct mids" and "i \<noteq> m"
  shows "filter (\<lambda>e. eventModel e = i) (streamMultipleResponses models sdk sched mids prompt)
           = filter (\<lambda>e. eventModel e = i) (streamMultipleResponses models sdk' sched' mids prompt)"
proof (cases "i \<in> set mids")
  case True
  then obtain k where k: "k < length mids" "mids ! k = i" by (auto simp: in_set_conv_nth)
  with assms have "sdk k = sdk' k" by simp
  with projection_distinct [OF assms(2) k(1), of models sdk sched prompt]
       projection_distinct [OF assms(2) k(1), of models sdk' sched' prompt] k(2)
  show ?thesis by simp
next
  case False
  have "filter (\<lambda>e. eventModel e = i) (streamMultipleResponses models f s mids prompt) = []" for f s
  proof -
    have "\<forall>e \<in> set (streamMultipleResponses models f s mids prompt). eventModel e \<noteq> i"
    proof
      fix e assume "e \<in> set (streamMultipleResponses models f s mids prompt)"
      then have "eventModel e \<in> set mids" by (rule events_models)
      with False show "eventModel e \<noteq> i" by blast
    qed
    then show ?thesis by (simp add: filter_empty_conv)
  qed
  then show ?thesis by simp
qed

section \<open>The callbacks of startComparisonStreaming\<close>

subsection \<open>One callback\<close>

lemma rowUpdate_keys [simp]:
  "mr_id (rowUpdate e resp r) = mr_id r"
  "mr_sessionId (rowUpdate e resp r) = mr_sessionId r"
  "mr_modelId (rowUpdate e resp r) = mr_modelId r"
  by (cases e; simp)+

lemma rowUpdate_status [simp]: "mr_status (rowUpdate e resp r) = statusAfter e"
  by (cases e) simp_all

lemma mapUpdate_id [simp]: "mr_id (mapUpdate e resp) = mr_id resp"
  by (cases e) simp_all

lemma onEvent_eq:
  "onEvent e (rm, db, out) =
     (case rm (eventModel e) of
        None \<Rightarrow> (rm, db, out @ [e])
      | Some resp \<Rightarrow>
          (rm(eventModel e \<mapsto> mapUpdate e resp),
           updateModelResponse (mr_id resp) (rowUpdate e resp) db, out @ [e]))"
proof (cases e)
  case (ModelChunk m c)
  then show ?thesis
    by (simp add: Let_def fun_eq_iff updateModelResponse_def split: option.splits)
next
  case (ModelComplete m mt)
  then show ?thesis
    by (simp add: finalizeModelResponse_def updateModelResponse_def fun_eq_iff map_upd_triv
          split: option.splits)
next
  case (ModelError m msg)
  then show ?thesis
    by (simp add: markResponseAsError_def updateModelResponse_def fun_eq_iff map_upd_triv
          split: option.splits)
qed

lemma updateModelResponse_responses:
  "responses (updateModelResponse i u db) = map (\<lambda>r. if mr_id r = i then u r else r) (responses db)"
  by (simp add: updateModelResponse_def)

lemma updateModelResponse_sessions [simp]:
  "sessions (updateModelResponse i u db) = sessions db"
  by (simp add: updateModelResponse_def)

text \<open>The state after one callback, component by component.\<close>

lemma onEvent_rows:
  "responses (fst (snd (onEvent e (rm, db, out)))) =
     map (\<lambda>r. case rm (eventModel e) of
                 None \<Rightarrow> r
               | Some resp \<Rightarrow> if mr_id r = mr_id resp then rowUpdate e resp r else r)
         (responses db)"
  by (simp add: onEvent_eq updateModelResponse_responses split: option.splits)

lemma onEvent_sessions: "sessions (fst (snd (onEvent e (rm, db, out)))) = sessions db"
  by (simp add: onEvent_eq split: option.splits)

lemma onEvent_out: "snd (snd (onEvent e (rm, db, out))) = out @ [e]"
  by (simp add: onEvent_eq split: option.splits)

subsection \<open>A sequence of callbacks\<close>

lemma onEvent_row_nth:
  assumes "j < length (responses db)"
  shows "responses (fst (snd (onEvent e (rm, db, out)))) ! j =
     (case rm (eventModel e) of
        None \<Rightarrow> responses db ! j
      | Some resp \<Rightarrow> if mr_id (responses db ! j) = mr_id resp
                     then rowUpdate e resp (responses db ! j) else responses db ! j)"
  using assms by (simp add: onEvent_rows)

lemma run_key:
  assumes "\<And>e resp r. k (rowUpdate e resp r) = k r"
  shows "map k (responses (fst (snd (fold onEvent evs st)))) = map k (responses (fst (snd st)))"
proof (induction evs arbitrary: st)
  case Nil
  then show ?case by simp
next
  case (Cons e evs)
  obtain rm db out where st: "st = (rm, db, out)" by (cases st) auto
  have "map k (responses (fst (snd (onEvent e (rm, db, out))))) = map k (responses db)"
    by (rule nth_equalityI) (simp_all add: onEvent_rows assms split: option.splits)
  with Cons [of "onEvent e st"] st show ?case by simp
qed

lemma run_length:
  "length (responses (fst (snd (fold onEvent evs st)))) = length (responses (fst (snd st)))"
  using run_key [of mr_id evs st, THEN arg_cong, of length] by simp

lemma run_sessions: "sessions (fst (snd (fold onEvent evs st))) = sessions (fst (snd st))"
proof (induction evs arbitrary: st)
  case Nil
  then show ?case by simp
next
  case (Cons e evs)
  obtain rm db out where st: "st = (rm, db, out)" by (cases st) auto
  with Cons [of "onEvent e st"] show ?case by (simp add: onEvent_sessions)
qed

lemma run_out: "snd (snd (fold onEvent evs st)) = snd (snd st) @ evs"
proof (induction evs arbitrary: st)
  case Nil
  then show ?case by simp
next
  case (Cons e evs)
  obtain rm db out where st: "st = (rm, db, out)" by (cases st) auto
  with Cons [of "onEvent e st"] show ?case by (simp add: onEvent_out)
qed

text \<open>A row that is completed after a sequence of callbacks without a completion was so before.\<close>

lemma run_no_completion:
  assumes "\<forall>e \<in> set evs. \<not> isComplete e" and "j < length (responses (fst (snd st)))"
    and "mr_status (responses (fst (snd (fold onEvent evs st))) ! j) = RCompleted"
  shows "mr_status (responses (fst (snd st)) ! j) = RCompleted"
  using assms
proof (induction evs arbitrary: st)
  case Nil
  then show ?case by simp
next
  case (Cons e evs)
  obtain rm db out where st: "st = (rm, db, out)" by (cases st) auto
  have e: "statusAfter e \<noteq> RCompleted" using Cons.prems(1) by (cases e) simp_all
  have l: "j < length (responses (fst (snd (onEvent e st))))"
    using Cons.prems(2) st by (simp add: onEvent_rows)
  have "mr_status (responses (fst (snd (onEvent e st))) ! j) = RCompleted"
    using Cons.IH [of "onEvent e st"] Cons.prems l by simp
  then show ?case
    using e Cons.prems(2) st
    by (simp add: onEvent_row_nth split: option.splits if_splits)
qed

subsection \<open>Creating the response rows\<close>

lemma newId_fresh: "x \<in> set rs \<Longrightarrow> mr_id x < newId rs"
proof -
  have "x \<in> set rs \<Longrightarrow> mr_id x \<le> foldr max (map mr_id rs) 0"
    by (induction rs) auto
  then show "x \<in> set rs \<Longrightarrow> mr_id x < newId rs" by (simp add: newId_def)
qed

lemma createModelResponse_eq:
  "createModelResponse sid m p db =
     (fst (createModelResponse sid m p db),
      db\<lparr>responses := responses db @ [fst (createModelResponse sid m p db)]\<rparr>)"
  by (simp add: createModelResponse_def Let_def)

lemma createModelResponse_row:
  "mr_id (fst (createModelResponse sid m p db)) = newId (responses db)"
  "mr_modelId (fst (createModelResponse sid m p db)) = m"
  "mr_sessionId (fst (createModelResponse sid m p db)) = sid"
  "mr_status (fst (createModelResponse sid m p db)) = RPending"
  "mr_response (fst (createModelResponse sid m p db)) = Some []"
  by (simp_all add: createModelResponse_def Let_def)

lemma createResponses_rows:
  assumes "createResponses av sid mids db = (err, rs, db')"
  shows "responses db' = responses db @ rs
       \<and> (\<forall>r \<in> set rs. mr_sessionId r = sid \<and> mr_status r = RPending \<and> mr_response r = Some []
              \<and> (\<forall>x \<in> set (responses db). mr_id x < mr_id r))
       \<and> sorted_wrt (\<lambda>a b. mr_id a < mr_id b) rs
       \<and> (err = None \<longrightarrow> map mr_modelId rs = mids)
       \<and> (err = None \<longleftrightarrow> set mids \<subseteq> mi_id ` set av)"
  using assms
proof (induction mids arbitrary: db err rs db')
  case Nil
  then show ?case by simp
next
  case (Cons m mids)
  show ?case
  proof (cases "find (\<lambda>i. mi_id i = m) av")
    case None
    obtain e1 rs1 db1 where r: "createResponses av sid mids db = (e1, rs1, db1)"
      by (cases "createResponses av sid mids db") auto
    from Cons.prems None r have eq: "err = Some undefinedProvider" "rs = rs1" "db' = db1" by simp_all
    from None have "m \<notin> mi_id ` set av" by (auto simp: find_None_iff)
    with Cons.IH [OF r] eq show ?thesis by simp
  next
    case (Some model)
    define r0 where "r0 = fst (createModelResponse sid m (mi_provider model) db)"
    let ?r = r0
    let ?db1 = "db\<lparr>responses := responses db @ [?r]\<rparr>"
    have c: "createModelResponse sid m (mi_provider model) db = (?r, ?db1)"
      unfolding r0_def by (rule createModelResponse_eq)
    obtain e1 rs1 db2 where r: "createResponses av sid mids ?db1 = (e1, rs1, db2)"
      by (cases "createResponses av sid mids ?db1") auto
    from Cons.prems Some c r have eq: "err = e1" "rs = ?r # rs1" "db' = db2" by simp_all
    from Some have mem: "m \<in> mi_id ` set av" by (auto simp: find_Some_iff)
    note ih = Cons.IH [OF r]
    have a: "responses db' = responses db @ rs" using ih eq by simp
    have b: "\<forall>x \<in> set rs1. mr_id ?r < mr_id x" using ih by simp
    have rr: "mr_sessionId ?r = sid \<and> mr_status ?r = RPending \<and> mr_response ?r = Some []
              \<and> (\<forall>x \<in> set (responses db). mr_id x < mr_id ?r)"
      unfolding r0_def by (simp add: createModelResponse_row newId_fresh)
    have d: "\<forall>r \<in> set rs. mr_sessionId r = sid \<and> mr_status r = RPending \<and> mr_response r = Some []
              \<and> (\<forall>x \<in> set (responses db). mr_id x < mr_id r)"
      using ih rr eq by simp
    have s: "sorted_wrt (\<lambda>a b. mr_id a < mr_id b) rs" using ih b eq by simp
    have k: "err = None \<longrightarrow> map mr_modelId rs = m # mids"
      using ih eq unfolding r0_def by (simp add: createModelResponse_row)
    have i: "err = None \<longleftrightarrow> set (m # mids) \<subseteq> mi_id ` set av"
      using ih eq mem by simp
    from a d s k i show ?thesis by blast
  qed
qed

subsection \<open>The calls of one invocation\<close>

lemma streamLoop_eq:
  "streamLoop cs (full, calls) =
     (full @ concat cs, calls @ map OnChunk (filter (\<lambda>c. c \<noteq> []) cs))"
  by (induction cs arbitrary: full calls) simp_all

lemma streamResponse_shape:
  "streamResponse models sdk m p =
     (if m \<in> set models then map OnChunk (filter (\<lambda>c. c \<noteq> []) (streamContents sdk)) else [])
     @ [terminal models sdk m p]
   \<and> (\<forall>c. terminal models sdk m p \<noteq> OnChunk c)
   \<and> ((\<exists>mt. terminal models sdk m p = OnComplete mt) \<longleftrightarrow> (m \<in> set models \<and> streamThrows sdk = None))"
  by (cases "streamThrows sdk")
     (auto simp: terminal_def streamResponse_def streamLoop_eq Let_def)

subsection \<open>The whole call\<close>

lemma getSession_None_iff:
  "getSession sid uid db = None \<longleftrightarrow> \<not> (\<exists>s \<in> set (sessions db). cs_id s = sid \<and> cs_userId s = uid)"
proof -
  have "getSession sid uid db = None
          \<longleftrightarrow> find (\<lambda>s. cs_id s = sid \<and> cs_userId s = uid) (sessions db) = None"
    by (simp add: getSession_def split: option.splits)
  then show ?thesis by (auto simp: find_None_iff)
qed

lemma owner_kept:
  "(\<exists>s \<in> set (sessions (updateSessionStatus sid' st db)). cs_id s = sid \<and> cs_userId s = uid)
     \<longleftrightarrow> (\<exists>s \<in> set (sessions db). cs_id s = sid \<and> cs_userId s = uid)"
proof -
  let ?f = "\<lambda>s. if cs_id s = sid' then s\<lparr>cs_status := st\<rparr> else s"
  have k: "cs_id (?f s) = cs_id s \<and> cs_userId (?f s) = cs_userId s" for s by simp
  have "(\<exists>s \<in> ?f ` set (sessions db). cs_id s = sid \<and> cs_userId s = uid)
     \<longleftrightarrow> (\<exists>s \<in> set (sessions db). cs_id (?f s) = sid \<and> cs_userId (?f s) = uid)"
    by blast
  then show ?thesis by (simp only: updateSessionStatus_sessions set_map k)
qed

text \<open>The call returns normally exactly when the rows are created and the user owns the session.\<close>

lemma start_returns:
  assumes "createResponses (getAvailableModels models) sid mids
             (updateSessionStatus sid SInProgress db) = (None, rs, db2)"
    and "getSession sid uid db2 = Some (session, others)"
  shows "startComparisonStreaming models sdk sched sid uid mids db =
           (Inr (),
            updateSessionStatus sid SCompleted (updateSessionMetrics sid
              (fst (snd (fold onEvent
                 (streamMultipleResponses models sdk sched mids (cs_prompt session))
                 (mkResponseMap rs, db2, []))))),
            streamMultipleResponses models sdk sched mids (cs_prompt session))"
proof -
  let ?evs = "streamMultipleResponses models sdk sched mids (cs_prompt session)"
  obtain rm3 db3 out3 where f: "fold onEvent ?evs (mkResponseMap rs, db2, []) = (rm3, db3, out3)"
    by (cases "fold onEvent ?evs (mkResponseMap rs, db2, [])") auto
  have "out3 = ?evs" using run_out [of ?evs "(mkResponseMap rs, db2, [])"] f by simp
  with f assms show ?thesis
    by (simp add: startComparisonStreaming_def comparisonBody_def Let_def)
qed

lemma events_of_invocations:
  assumes "e \<in> set (streamMultipleResponses models sdk sched mids prompt)"
  obtains k where "k < length mids"
    and "e \<in> set (map (forModel (mids ! k)) (streamResponse models (sdk k) (mids ! k) prompt))"
proof -
  from assms have "e \<in> set (interleave sched (promises models sdk mids prompt))"
    by (simp add: streamMultipleResponses_def)
  from interleave_set [OF this]
  obtain q where q: "q \<in> set (promises models sdk mids prompt)" "e \<in> set q"
    by blast
  from q(1) obtain k where k: "k < length mids" "promises models sdk mids prompt ! k = q"
    by (auto simp: in_set_conv_nth)
  with q(2) have "e \<in> set (map (forModel (mids ! k)) (streamResponse models (sdk k) (mids ! k) prompt))"
    by (simp add: promises_nth)
  with k(1) that show ?thesis by blast
qed

lemma failing_invocation_no_completion:
  assumes "streamThrows sdk \<noteq> None"
    and "e \<in> set (map (forModel m) (streamResponse models sdk m prompt))"
  shows "\<not> isComplete e"
proof -
  from assms(2) obtain c where c: "c \<in> set (streamResponse models sdk m prompt)" "e = forModel m c"
    by auto
  have nt: "\<not> (\<exists>mt. terminal models sdk m prompt = OnComplete mt)"
    using streamResponse_shape [of models sdk m prompt] assms(1) by simp
  from c(1) have "(\<exists>x. c = OnChunk x) \<or> c = terminal models sdk m prompt"
    by (subst (asm) streamResponse_shape [THEN conjunct1]) (auto split: if_splits)
  then show ?thesis
  proof
    assume "\<exists>x. c = OnChunk x"
    then show ?thesis using c(2) by auto
  next
    assume "c = terminal models sdk m prompt"
    with nt have "c \<noteq> OnComplete mt" for mt by simp
    then show ?thesis using c(2) by (cases c) auto
  qed
qed

lemma final_session:
  assumes "s \<in> set (sessions (updateSessionStatus sid SCompleted (updateSessionMetrics sid db)))"
    and "cs_id s = sid" and "completedOf sid db = []"
  shows "cs_status s = SCompleted \<and> cs_totalTokens s = 0 \<and> cs_totalCost s = 0
       \<and> cs_averageResponseTime s = 0"
proof -
  let ?g = "\<lambda>x. if cs_id x = sid
               then x\<lparr>cs_totalTokens := 0, cs_totalCost := 0, cs_averageResponseTime := 0\<rparr> else x"
  let ?f = "\<lambda>x. if cs_id x = sid then x\<lparr>cs_status := SCompleted\<rparr> else x"
  have "sessions (updateSessionStatus sid SCompleted (updateSessionMetrics sid db))
          = map ?f (map ?g (sessions db))"
    by (simp only: updateSessionStatus_sessions updateSessionMetrics_sessions assms(3)) simp
  with assms(1) have "s \<in> (\<lambda>x. ?f (?g x)) ` set (sessions db)" by (simp add: image_image)
  then obtain x where x: "s = ?f (?g x)" by (rule imageE)
  have "cs_id x = sid" using x assms(2) by (cases "cs_id x = sid") simp_all
  with x show ?thesis by simp
qed

section \<open>Sessions in which every model fails\<close>

lemma updateSessionMetrics_ids [simp]:
  "map cs_id (sessions (updateSessionMetrics sid db)) = map cs_id (sessions db)"
  by (rule nth_equalityI) (simp_all add: updateSessionMetrics_sessions)

text \<open>What the call leaves in the table of responses and in the table of sessions.\<close>

lemma start_tables:
  assumes c: "createResponses (getAvailableModels models) sid mids
             (updateSessionStatus sid SInProgress db) = (None, rs, db2)"
    and g: "getSession sid uid db2 = Some (session, others)"
    and evs_def: "evs = streamMultipleResponses models sdk sched mids (cs_prompt session)"
    and db3_def: "db3 = fst (snd (fold onEvent evs (mkResponseMap rs, db2, [])))"
  shows "responses (fst (snd (startComparisonStreaming models sdk sched sid uid mids db))) = responses db3"
    and "map cs_id (sessions (fst (snd (startComparisonStreaming models sdk sched sid uid mids db))))
           = map cs_id (sessions db)"
    and "length (responses db3) = length (responses db) + length rs"
    and "responses db2 = responses db @ rs"
    and "snd (snd (startComparisonStreaming models sdk sched sid uid mids db)) = evs"
proof -
  note st = start_returns [OF c g, of sdk sched]
  have s2: "sessions db2 = sessions (updateSessionStatus sid SInProgress db)"
    using createResponses_sessions [of "getAvailableModels models" sid mids
            "updateSessionStatus sid SInProgress db"] c by simp
  have s3: "sessions db3 = sessions db2"
    unfolding db3_def using run_sessions [of evs "(mkResponseMap rs, db2, [])"] by simp
  show "responses (fst (snd (startComparisonStreaming models sdk sched sid uid mids db))) = responses db3"
    unfolding st db3_def evs_def by simp
  show "map cs_id (sessions (fst (snd (startComparisonStreaming models sdk sched sid uid mids db))))
           = map cs_id (sessions db)"
    unfolding st using s2 s3 unfolding db3_def evs_def by simp
  show r2: "responses db2 = responses db @ rs"
    using createResponses_rows [OF c] by simp
  show "length (responses db3) = length (responses db) + length rs"
    unfolding db3_def using run_length [of evs "(mkResponseMap rs, db2, [])"] r2 by simp
  show "snd (snd (startComparisonStreaming models sdk sched sid uid mids db)) = evs"
    unfolding st evs_def by simp
qed

text \<open>
  Claim C5. Let the user own the session, let every requested identifier be one of the
  available models, let the session have no completed response yet, and let every
  invocation fail at its provider. Then \<open>startComparisonStreaming\<close> returns normally,
  no completion is reported, and the session exists afterwards with status completed (not
  failed) and with \<open>totalTokens\<close>, \<open>totalCost\<close> and \<open>averageResponseTime\<close> all 0.
\<close>

theorem all_models_fail:
  assumes owner: "getSession sid uid db \<noteq> None"
    and reg: "set mids \<subseteq> mi_id ` set (getAvailableModels models)"
    and fail: "\<forall>k<length mids. streamThrows (sdk k) \<noteq> None"
    and fresh: "\<forall>r \<in> set (responses db). mr_sessionId r = sid \<longrightarrow> mr_status r \<noteq> RCompleted"
  shows "fst (startComparisonStreaming models sdk sched sid uid mids db) = Inr ()
       \<and> (\<forall>e \<in> set (snd (snd (startComparisonStreaming models sdk sched sid uid mids db))). \<not> isComplete e)
       \<and> (\<exists>s \<in> set (sessions (fst (snd (startComparisonStreaming models sdk sched sid uid mids db)))).
             cs_id s = sid)
       \<and> (\<forall>s \<in> set (sessions (fst (snd (startComparisonStreaming models sdk sched sid uid mids db)))).
             cs_id s = sid \<longrightarrow>
               cs_status s = SCompleted \<and> cs_totalTokens s = 0 \<and> cs_totalCost s = 0
               \<and> cs_averageResponseTime s = 0)"
proof -
  let ?db1 = "updateSessionStatus sid SInProgress db"
  let ?start = "startComparisonStreaming models sdk sched sid uid mids db"
  obtain err rs db2 where c0: "createResponses (getAvailableModels models) sid mids ?db1 = (err, rs, db2)"
    by (cases "createResponses (getAvailableModels models) sid mids ?db1") auto
  note rows = createResponses_rows [OF c0]
  from rows reg have "err = None" by simp
  with c0 have c: "createResponses (getAvailableModels models) sid mids ?db1 = (None, rs, db2)" by simp
  have s2: "sessions db2 = sessions ?db1"
    using createResponses_sessions [of "getAvailableModels models" sid mids ?db1] c by simp
  have own: "\<exists>s \<in> set (sessions db). cs_id s = sid \<and> cs_userId s = uid"
    using owner by (simp add: getSession_None_iff)
  then have "\<exists>s \<in> set (sessions db2). cs_id s = sid \<and> cs_userId s = uid"
    unfolding s2 by (simp only: owner_kept)
  then have "getSession sid uid db2 \<noteq> None" by (simp add: getSession_None_iff)
  then obtain session others where g: "getSession sid uid db2 = Some (session, others)"
    by (cases "getSession sid uid db2") auto
  define evs where "evs = streamMultipleResponses models sdk sched mids (cs_prompt session)"
  define db3 where "db3 = fst (snd (fold onEvent evs (mkResponseMap rs, db2, [])))"
  note st = start_returns [OF c g, of sdk sched]
  note tb = start_tables [OF c g evs_def db3_def]
  have ret: "fst ?start = Inr ()" unfolding st by simp
  have nc: "\<forall>e \<in> set evs. \<not> isComplete e"
  proof
    fix e assume "e \<in> set evs"
    then obtain k where k: "k < length mids"
      and e: "e \<in> set (map (forModel (mids ! k)) (streamResponse models (sdk k) (mids ! k) (cs_prompt session)))"
      unfolding evs_def by (rule events_of_invocations)
    from fail k have "streamThrows (sdk k) \<noteq> None" by simp
    then show "\<not> isComplete e" using e by (rule failing_invocation_no_completion)
  qed
  have none: "completedOf sid db3 = []"
  proof -
    have "\<not> (mr_sessionId x = sid \<and> mr_status x = RCompleted)" if "x \<in> set (responses db3)" for x
    proof
      assume a: "mr_sessionId x = sid \<and> mr_status x = RCompleted"
      from that obtain j where j: "j < length (responses db3)" "responses db3 ! j = x"
        by (auto simp: in_set_conv_nth)
      have l2: "j < length (responses db2)"
        using j(1) tb(3) tb(4) by simp
      have st2: "mr_status (responses db2 ! j) = RCompleted"
        using run_no_completion [OF nc, of j "(mkResponseMap rs, db2, [])"] l2 a j(2)
        unfolding db3_def by simp
      have "map mr_sessionId (responses db3) ! j = map mr_sessionId (responses db2) ! j"
        unfolding db3_def using run_key [of mr_sessionId evs "(mkResponseMap rs, db2, [])"] by simp
      then have ss2: "mr_sessionId (responses db2 ! j) = sid"
        using a j l2 by simp
      have "responses db2 ! j \<in> set (responses db) \<union> set rs"
        using nth_mem [OF l2] tb(4) by simp
      then show False
      proof
        assume "responses db2 ! j \<in> set (responses db)"
        with fresh ss2 st2 show False by blast
      next
        assume "responses db2 ! j \<in> set rs"
        with rows have "mr_status (responses db2 ! j) = RPending" by blast
        with st2 show False by simp
      qed
    qed
    then show ?thesis by (simp add: completedOf_def filter_empty_conv)
  qed
  have ex: "\<exists>s \<in> set (sessions (fst (snd ?start))). cs_id s = sid"
  proof -
    from own have "sid \<in> set (map cs_id (sessions db))" by auto
    then have "sid \<in> set (map cs_id (sessions (fst (snd ?start))))" unfolding tb(2) .
    then show ?thesis by auto
  qed
  have fin: "\<forall>s \<in> set (sessions (fst (snd ?start))).
             cs_id s = sid \<longrightarrow>
               cs_status s = SCompleted \<and> cs_totalTokens s = 0 \<and> cs_totalCost s = 0
               \<and> cs_averageResponseTime s = 0"
  proof (intro ballI impI)
    fix s assume "s \<in> set (sessions (fst (snd ?start)))" and i: "cs_id s = sid"
    then have "s \<in> set (sessions (updateSessionStatus sid SCompleted (updateSessionMetrics sid db3)))"
      unfolding st db3_def evs_def by simp
    then show "cs_status s = SCompleted \<and> cs_totalTokens s = 0 \<and> cs_totalCost s = 0
               \<and> cs_averageResponseTime s = 0"
      using i none by (rule final_session)
  qed
  from ret nc ex fin show ?thesis unfolding tb(5) by blast
qed

theorem all_models_fail_witness:
  "fst (startComparisonStreaming exModels (\<lambda>k. failRun) [] ''s1'' ''u1'' [''gpt-4'', ''gpt-3.5-turbo''] exDb) = Inr ()
   \<and> (\<exists>s \<in> set (sessions (fst (snd (startComparisonStreaming exModels (\<lambda>k. failRun) [] ''s1'' ''u1''
                                       [''gpt-4'', ''gpt-3.5-turbo''] exDb)))).
         cs_id s = ''s1'' \<and> cs_status s = SCompleted \<and> cs_totalTokens s = 0 \<and> cs_totalCost s = 0
         \<and> cs_averageResponseTime s = 0)"
proof -
  have h1: "getSession ''s1'' ''u1'' exDb \<noteq> None"
    by (simp add: getSession_def exDb_def exSession_def)
  have h2: "set [''gpt-4'', ''gpt-3.5-turbo''] \<subseteq> mi_id ` set (getAvailableModels exModels)"
    by (simp add: getAvailableModels_def catalogue_def exModels_def initializeModels_def configured_def)
  have h3: "\<forall>k<length [''gpt-4'', ''gpt-3.5-turbo'']. streamThrows ((\<lambda>k. failRun) k) \<noteq> None"
    by (simp add: failRun_def)
  have h4: "\<forall>r \<in> set (responses exDb). mr_sessionId r = ''s1'' \<longrightarrow> mr_status r \<noteq> RCompleted"
    by (simp add: exDb_def)
  from all_models_fail [OF h1 h2 h3 h4, of "[]"] show ?thesis by blast
qed

section \<open>The store's timing and failures\<close>

subsection \<open>What the calls leave in the table of sessions\<close>

lemma saveModelResponse_sessions:
  assumes "saveModelResponse store k sid m p db = Inr (r, db1)"
  shows "sessions db1 = sessions db"
proof -
  have "createModelResponse sid m p db = (r, db1)"
    using assms by (simp add: saveModelResponse_def split: option.splits if_splits)
  then show ?thesis using createModelResponse_sessions [of sid m p db] by simp
qed

lemma saveAll_sessions: "sessions (snd (snd (saveAll store sid ps db))) = sessions db"
proof (induction ps arbitrary: db)
  case Nil
  then show ?case by simp
next
  case (Cons p ps)
  obtain k m pr where p: "p = (k, m, pr)" by (cases p) auto
  show ?case
  proof (cases "saveModelResponse store k sid m pr db")
    case (Inl e)
    obtain later saved db' where r: "saveAll store sid ps db = (later, saved, db')"
      by (cases "saveAll store sid ps db") auto
    then show ?thesis using Inl p Cons [of db] by simp
  next
    case (Inr x)
    obtain r db1 where x: "x = (r, db1)" by (cases x) auto
    have s1: "sessions db1 = sessions db"
      using saveModelResponse_sessions Inr x by blast
    obtain later saved db' where r: "saveAll store sid ps db1 = (later, saved, db')"
      by (cases "saveAll store sid ps db1") auto
    then show ?thesis using Inr x p Cons [of db1] s1 by simp
  qed
qed

lemma createResponses_on_sessions:
  "sessions (snd (createResponses_on store av sid mids db)) = sessions db"
proof -
  obtain rejected saved db' where
    r: "saveAll store sid (arrange (saveOrder store) (responsePromises av mids)) db = (rejected, saved, db')"
    by (cases "saveAll store sid (arrange (saveOrder store) (responsePromises av mids)) db") auto
  have "sessions db' = sessions db"
    using saveAll_sessions [of store sid "arrange (saveOrder store) (responsePromises av mids)" db] r
    by simp
  then show ?thesis
    by (simp add: createResponses_on_def r split: option.splits)
qed

lemma issue_keeps_sessions:
  assumes "\<forall>w \<in> set ws. \<forall>db. sessions (w db) = sessions db"
  shows "\<forall>w \<in> set (fst (snd (issue e (rm, ws, out)))). \<forall>db. sessions (w db) = sessions db"
proof (cases e)
  case (ModelChunk m c)
  then show ?thesis using assms by (cases "rm m") (auto simp: Let_def)
next
  case (ModelComplete m x)
  then show ?thesis using assms by (cases "rm m") (auto simp: finalizeModelResponse_def)
next
  case (ModelError m x)
  then show ?thesis using assms by (cases "rm m") (auto simp: markResponseAsError_def)
qed

lemma fold_issue_keeps_sessions:
  assumes "\<forall>w \<in> set (fst (snd st)). \<forall>db. sessions (w db) = sessions db"
  shows "\<forall>w \<in> set (fst (snd (fold issue evs st))). \<forall>db. sessions (w db) = sessions db"
  using assms
proof (induction evs arbitrary: st)
  case Nil
  then show ?case by simp
next
  case (Cons e evs)
  obtain rm ws out where st: "st = (rm, ws, out)" by (cases st) auto
  have "\<forall>w \<in> set (fst (snd (issue e st))). \<forall>db. sessions (w db) = sessions db"
    using issue_keeps_sessions [of ws e rm out] Cons.prems st by simp
  then show ?case using Cons.IH [of "issue e st"] by simp
qed

lemma arrange_subset: "set (arrange ks xs) \<subseteq> set xs"
proof (induction ks arbitrary: xs)
  case Nil
  then show ?case by simp
next
  case (Cons k ks)
  show ?case
  proof (cases "k < length xs")
    case True
    have "set (take k xs @ drop (Suc k) xs) \<subseteq> set xs"
      using set_take_subset [of k xs] set_drop_subset [of "Suc k" xs] by auto
    then have "set (arrange ks (take k xs @ drop (Suc k) xs)) \<subseteq> set xs"
      using Cons [of "take k xs @ drop (Suc k) xs"] by blast
    then show ?thesis using True by simp
  next
    case False
    then show ?thesis using Cons [of xs] by simp
  qed
qed

lemma arrange_length: "length (arrange ks xs) = length xs"
proof (induction ks arbitrary: xs)
  case Nil
  then show ?case by simp
next
  case (Cons k ks)
  show ?case
  proof (cases "k < length xs")
    case True
    then have "length (take k xs @ drop (Suc k) xs) = length xs - 1" by simp
    then show ?thesis using True Cons [of "take k xs @ drop (Suc k) xs"] by simp
  next
    case False
    then show ?thesis using Cons [of xs] by simp
  qed
qed

lemma land_sessions:
  "\<forall>w \<in> set ws. \<forall>db. sessions (w db) = sessions db \<Longrightarrow> sessions (land ws db) = sessions db"
  unfolding land_def by (induction ws arbitrary: db) simp_all


lemma others_map:
  "filter (\<lambda>s. cs_id s \<noteq> sid) (map (\<lambda>s. if cs_id s = sid then g s else s) xs)
     = filter (\<lambda>s. cs_id s \<noteq> sid) xs"
  if "\<And>s. cs_id (g s) = cs_id s"
  using that by (induction xs) simp_all

lemma updateSessionStatus_others:
  "filter (\<lambda>s. cs_id s \<noteq> sid) (sessions (updateSessionStatus sid st db))
     = filter (\<lambda>s. cs_id s \<noteq> sid) (sessions db)"
  unfolding updateSessionStatus_sessions by (rule others_map) simp

lemma updateSessionMetrics_others:
  "filter (\<lambda>s. cs_id s \<noteq> sid) (sessions (updateSessionMetrics sid db))
     = filter (\<lambda>s. cs_id s \<noteq> sid) (sessions db)"
  unfolding updateSessionMetrics_sessions by (rule others_map) simp

text \<open>
  Whatever the store does, the body of the \<^verbatim>\<open>try\<close> block changes the table of sessions
  only through \<open>updateSessionStatus\<close> and \<open>updateSessionMetrics\<close> for the given session.
\<close>

lemma comparisonBody_on_sessions:
  assumes st: "\<And>st d. f (sessions (updateSessionStatus sid st d)) = f (sessions d)"
    and me: "\<And>d. f (sessions (updateSessionMetrics sid d)) = f (sessions d)"
  shows "f (sessions (fst (snd (comparisonBody_on store models sdk sched sid uid mids db))))
           = f (sessions db)"
proof (cases "rejects store SetInProgress")
  case (Some e)
  then show ?thesis by (simp add: comparisonBody_on_def)
next
  case accepted: None
  let ?db1 = "updateSessionStatus sid SInProgress db"
  obtain res db2 where
    c: "createResponses_on store (getAvailableModels models) sid mids ?db1 = (res, db2)"
    by (cases "createResponses_on store (getAvailableModels models) sid mids ?db1") auto
  have "sessions db2 = sessions ?db1"
    using createResponses_on_sessions [of store "getAvailableModels models" sid mids ?db1] c by simp
  then have s2: "f (sessions db2) = f (sessions db)" using st by simp
  show ?thesis
  proof (cases res)
    case (Inl e)
    then show ?thesis using accepted c s2 by (simp add: comparisonBody_on_def)
  next
    case created: (Inr rs)
    show ?thesis
    proof (cases "rejects store ReadSession")
      case (Some e)
      then show ?thesis using accepted c created s2 by (simp add: comparisonBody_on_def)
    next
      case readable: None
      show ?thesis
      proof (cases "getSession sid uid db2")
        case None
        then show ?thesis using accepted c created readable s2 by (simp add: comparisonBody_on_def)
      next
        case (Some found)
        obtain session xs where found: "found = (session, xs)" by (cases found) auto
        let ?evs = "streamMultipleResponses models sdk sched mids (cs_prompt session)"
        obtain rm ws received where
          run: "fold issue ?evs (mkResponseMap rs, [], []) = (rm, ws, received)"
          by (cases "fold issue ?evs (mkResponseMap rs, [], [])") auto
        have "\<forall>w \<in> set ws. \<forall>d. sessions (w d) = sessions d"
          using fold_issue_keeps_sessions [of "(mkResponseMap rs, [], [])" ?evs] run by simp
        then have keep: "\<forall>w \<in> set (arrange (landing store) ws). \<forall>d. sessions (w d) = sessions d"
          using arrange_subset [of "landing store" ws] by blast
        define early where
          "early = take (length (arrange (landing store) ws) - lateAtRead store) (arrange (landing store) ws)"
        define late where
          "late = drop (length (arrange (landing store) ws) - lateAtRead store) (arrange (landing store) ws)"
        have e: "sessions (land early d) = sessions d" for d
          by (rule land_sessions) (use keep in \<open>auto simp: early_def dest: in_set_takeD\<close>)
        have l: "sessions (land late d) = sessions d" for d
          by (rule land_sessions) (use keep in \<open>auto simp: late_def dest: in_set_dropD\<close>)
        have body: "comparisonBody_on store models sdk sched sid uid mids db =
            (case rejects store UpdateMetrics of
               Some e \<Rightarrow> (Inl e, land late (land early db2), received)
             | None \<Rightarrow>
                 (case rejects store SetCompleted of
                    Some e \<Rightarrow> (Inl e, land late (updateSessionMetrics sid (land early db2)), received)
                  | None \<Rightarrow>
                      (Inr (),
                       updateSessionStatus sid SCompleted
                         (land late (updateSessionMetrics sid (land early db2))),
                       received)))"
          unfolding early_def late_def
          using accepted c created readable Some found run
          by (simp add: comparisonBody_on_def Let_def)
        have m: "f (sessions (land late (updateSessionMetrics sid (land early db2)))) = f (sessions db)"
          using me [of "land early db2"] s2 by (simp add: e l)
        show ?thesis
        proof (cases "rejects store UpdateMetrics")
          case (Some x)
          then show ?thesis using body s2 by (simp add: e l)
        next
          case None
          then show ?thesis using body m st by (cases "rejects store SetCompleted") simp_all
        qed
      qed
    qed
  qed
qed

subsection \<open>The store that answers at once\<close>

lemma land_snoc: "land (ws @ [w]) db = w (land ws db)"
  by (simp add: land_def)

lemma issue_onEvent:
  assumes "issue e (rm, ws, out) = (rm', ws', out')"
  shows "onEvent e (rm, land ws db, out) = (rm', land ws' db, out')"
proof (cases e)
  case (ModelChunk m c)
  then show ?thesis using assms by (cases "rm m") (auto simp: Let_def land_snoc)
next
  case (ModelComplete m x)
  then show ?thesis using assms by (cases "rm m") (auto simp: land_snoc)
next
  case (ModelError m x)
  then show ?thesis using assms by (cases "rm m") (auto simp: land_snoc)
qed

lemma fold_issue_onEvent:
  assumes "fold issue evs (rm, ws, out) = (rm', ws', out')"
  shows "fold onEvent evs (rm, land ws db, out) = (rm', land ws' db, out')"
  using assms
proof (induction evs arbitrary: rm ws out)
  case Nil
  then show ?case by simp
next
  case (Cons e evs)
  obtain rm1 ws1 out1 where s: "issue e (rm, ws, out) = (rm1, ws1, out1)"
    by (cases "issue e (rm, ws, out)") auto
  have "onEvent e (rm, land ws db, out) = (rm1, land ws1 db, out1)"
    using issue_onEvent [OF s] .
  moreover have "fold issue evs (rm1, ws1, out1) = (rm', ws', out')"
    using Cons.prems s by simp
  ultimately show ?case using Cons.IH by simp
qed

lemma map_filter_length: "length (List.map_filter g xs) \<le> length xs"
  by (induction xs) (simp_all add: List.map_filter_simps split: option.splits)

lemma saveAll_prompt:
  assumes "sid \<in> set (map cs_id (sessions db))"
    and "createResponses av sid mids db = (e, rs, db')"
    and "saveAll promptStore sid
           (List.map_filter
              (\<lambda>(k, modelId). case find (\<lambda>m. mi_id m = modelId) av of
                                 None \<Rightarrow> None
                               | Some model \<Rightarrow> Some (k, modelId, mi_provider model))
              (enumerate n mids)) db = (rej, saved, db'')"
  shows "rej = None \<and> db'' = db' \<and> map snd saved = rs \<and> sorted (map fst saved)
       \<and> (\<forall>k \<in> set (map fst saved). n \<le> k)
       \<and> (e = None \<or> e = Some undefinedProvider)
       \<and> (e = None \<longleftrightarrow>
             length (List.map_filter
                (\<lambda>(k, modelId). case find (\<lambda>m. mi_id m = modelId) av of
                                   None \<Rightarrow> None
                                 | Some model \<Rightarrow> Some (k, modelId, mi_provider model))
                (enumerate n mids)) = length mids)"
  using assms
proof (induction mids arbitrary: n db e rs db' rej saved db'')
  case Nil
  then show ?case by (simp add: List.map_filter_simps)
next
  case (Cons m ms)
  let ?g = "\<lambda>(k, modelId). case find (\<lambda>m. mi_id m = modelId) av of
                                 None \<Rightarrow> None
                               | Some model \<Rightarrow> Some (k, modelId, mi_provider model)"
  show ?case
  proof (cases "find (\<lambda>x. mi_id x = m) av")
    case None
    obtain e1 rs1 db1 where r: "createResponses av sid ms db = (e1, rs1, db1)"
      by (cases "createResponses av sid ms db") auto
    have c: "e = Some undefinedProvider" "rs = rs1" "db' = db1"
      using Cons.prems(2) None r by simp_all
    have mf: "List.map_filter ?g (enumerate n (m # ms)) = List.map_filter ?g (enumerate (Suc n) ms)"
      using None by (simp add: List.map_filter_simps)
    have s: "saveAll promptStore sid (List.map_filter ?g (enumerate (Suc n) ms)) db = (rej, saved, db'')"
      using Cons.prems(3) mf by simp
    note IH = Cons.IH [OF Cons.prems(1) r s]
    have "length (List.map_filter ?g (enumerate (Suc n) ms)) \<le> length ms"
      using map_filter_length [of ?g "enumerate (Suc n) ms"] by simp
    then have "length (List.map_filter ?g (enumerate n (m # ms))) \<noteq> length (m # ms)"
      using mf by simp
    moreover have "\<forall>k \<in> set (map fst saved). n \<le> k" using IH by auto
    ultimately show ?thesis using IH c by simp
  next
    case (Some model)
    obtain r db1 where cr: "createModelResponse sid m (mi_provider model) db = (r, db1)"
      by (cases "createModelResponse sid m (mi_provider model) db")
    have s1: "sessions db1 = sessions db"
      using createModelResponse_sessions [of sid m "mi_provider model" db] cr by simp
    obtain e1 rs1 db2 where rr: "createResponses av sid ms db1 = (e1, rs1, db2)"
      by (cases "createResponses av sid ms db1") auto
    have c: "e = e1" "rs = r # rs1" "db' = db2"
      using Cons.prems(2) Some cr rr by simp_all
    have mf: "List.map_filter ?g (enumerate n (m # ms))
                = (n, m, mi_provider model) # List.map_filter ?g (enumerate (Suc n) ms)"
      using Some by (simp add: List.map_filter_simps)
    have sv: "saveModelResponse promptStore n sid m (mi_provider model) db = Inr (r, db1)"
      using Cons.prems(1) cr by (simp add: saveModelResponse_def promptStore_def)
    obtain rej1 saved1 db3 where
      s: "saveAll promptStore sid (List.map_filter ?g (enumerate (Suc n) ms)) db1 = (rej1, saved1, db3)"
      by (cases "saveAll promptStore sid (List.map_filter ?g (enumerate (Suc n) ms)) db1") auto
    have res: "rej = rej1" "saved = (n, r) # saved1" "db'' = db3"
      using Cons.prems(3) mf sv s by simp_all
    have p1: "sid \<in> set (map cs_id (sessions db1))" using Cons.prems(1) s1 by simp
    note IH = Cons.IH [OF p1 rr s]
    have ge: "\<forall>k \<in> set (map fst saved1). Suc n \<le> k" using IH by blast
    then have so: "sorted (map fst saved)" using IH res by auto
    have lo: "\<forall>k \<in> set (map fst saved). n \<le> k" using ge res by auto
    have len: "(length (List.map_filter ?g (enumerate n (m # ms))) = length (m # ms))
                 = (length (List.map_filter ?g (enumerate (Suc n) ms)) = length ms)"
      by (simp only: mf list.size) simp
    from IH have parts: "rej1 = None" "db3 = db2" "map snd saved1 = rs1"
      "e1 = None \<or> e1 = Some undefinedProvider"
      "(e1 = None) = (length (List.map_filter ?g (enumerate (Suc n) ms)) = length ms)"
      by blast+
    have "rej = None" "db'' = db'" "map snd saved = rs" "e = None \<or> e = Some undefinedProvider"
      using parts c res by simp_all
    moreover have "(e = None) = (length (List.map_filter ?g (enumerate n (m # ms))) = length (m # ms))"
      using parts(5) c(1) len by (simp only:)
    ultimately show ?thesis using so lo by blast
  qed
qed

lemma createResponses_on_prompt:
  assumes "sid \<in> set (map cs_id (sessions db))"
    and "createResponses av sid mids db = (e, rs, db')"
  shows "createResponses_on promptStore av sid mids db
           = (case e of Some x \<Rightarrow> Inl x | None \<Rightarrow> Inr rs, db')"
proof -
  obtain rej saved db'' where
    s: "saveAll promptStore sid (responsePromises av mids) db = (rej, saved, db'')"
    by (cases "saveAll promptStore sid (responsePromises av mids) db") auto
  note f = saveAll_prompt [OF assms s [unfolded responsePromises_def]]
  have so: "sort_key fst saved = saved" using f by (simp add: sort_key_id_if_sorted)
  have ar: "arrange (saveOrder promptStore) (responsePromises av mids) = responsePromises av mids"
    by (simp add: promptStore_def)
  show ?thesis
  proof (cases e)
    case None
    then have "length (responsePromises av mids) = length mids"
      using f by (simp add: responsePromises_def)
    then show ?thesis using None f s so ar by (simp add: createResponses_on_def)
  next
    case (Some x)
    then have "length (responsePromises av mids) \<noteq> length mids" "x = undefinedProvider"
      using f by (simp_all add: responsePromises_def)
    moreover have "length (responsePromises av mids) \<le> length mids"
      using map_filter_length [of _ "enumerate 0 mids"] by (simp add: responsePromises_def)
    ultimately show ?thesis using Some f s ar by (simp add: createResponses_on_def)
  qed
qed

text \<open>
  On a store that accepts every call and lets it land before the next one is made, the
  call on a stored session is the call of the first model.
\<close>

lemma prompt_store_agrees:
  assumes "sid \<in> set (map cs_id (sessions db))"
  shows "startComparisonStreaming_on promptStore models sdk sched sid uid mids db
           = startComparisonStreaming models sdk sched sid uid mids db"
proof -
  let ?db1 = "updateSessionStatus sid SInProgress db"
  have in1: "sid \<in> set (map cs_id (sessions ?db1))"
    using assms by (simp add: updateSessionStatus_def comp_def) force
  obtain e rs db2 where c: "createResponses (getAvailableModels models) sid mids ?db1 = (e, rs, db2)"
    by (cases "createResponses (getAvailableModels models) sid mids ?db1") auto
  note on = createResponses_on_prompt [OF in1 c]
  have r: "rejects promptStore = (\<lambda>c. None)" "landing promptStore = []" "lateAtRead promptStore = 0"
    by (simp_all add: promptStore_def)
  show ?thesis
  proof (cases e)
    case (Some x)
    then show ?thesis using c on r
      by (simp add: startComparisonStreaming_on_def comparisonBody_on_def
                    startComparisonStreaming_def comparisonBody_def)
  next
    case created: None
    show ?thesis
    proof (cases "getSession sid uid db2")
      case None
      then show ?thesis using c on r created
        by (simp add: startComparisonStreaming_on_def comparisonBody_on_def
                      startComparisonStreaming_def comparisonBody_def)
    next
      case (Some found)
      obtain session xs where found: "found = (session, xs)" by (cases found) auto
      let ?evs = "streamMultipleResponses models sdk sched mids (cs_prompt session)"
      obtain rm ws received where
        run: "fold issue ?evs (mkResponseMap rs, [], []) = (rm, ws, received)"
        by (cases "fold issue ?evs (mkResponseMap rs, [], [])") auto
      have "fold onEvent ?evs (mkResponseMap rs, land [] db2, []) = (rm, land ws db2, received)"
        using fold_issue_onEvent [OF run] .
      then have run': "fold onEvent ?evs (mkResponseMap rs, db2, []) = (rm, land ws db2, received)"
        by (simp add: land_def)
      show ?thesis using c on r created Some found run run'
        by (simp add: startComparisonStreaming_on_def comparisonBody_on_def
                      startComparisonStreaming_def comparisonBody_def Let_def land_def)
    qed
  qed
qed

subsection \<open>Orchestration failures\<close>

text \<open>
  Claim C6, as stated, fails when the store rejects the status write of the \<^verbatim>\<open>catch\<close>
  block as well. In the sample deployment the store rejects the update of the session
  metrics with a disk error, the body throws it, and the store then rejects the write of
  the status failed because the database is locked: the call fails with that second
  error, not with the one the orchestration threw, and the status of the session stays
  in progress.
\<close>

theorem handler_write_rejected_counterexample:
  "fst (comparisonBody_on handlerRejected exModels exSdk [1, 0, 0] ''s1'' ''u1'' [''gpt-4'', ''gpt-3.5-turbo''] exDb)
     = Inl (Error ''SQLITE_IOERR: disk I/O error'')
   \<and> fst (startComparisonStreaming_on handlerRejected exModels exSdk [1, 0, 0] ''s1'' ''u1''
             [''gpt-4'', ''gpt-3.5-turbo''] exDb)
     = Inl (Error ''SQLITE_BUSY: database is locked'')
   \<and> map cs_status
        (sessions (fst (snd (startComparisonStreaming_on handlerRejected exModels exSdk [1, 0, 0] ''s1'' ''u1''
                               [''gpt-4'', ''gpt-3.5-turbo''] exDb))))
     = [SInProgress]"
  by code_simp

text \<open>
  Claim C6, amended. Let the body of the \<^verbatim>\<open>try\<close> block throw \<open>e\<close>, whichever awaited call
  or TypeError it comes from. When the store accepts the status write of the \<^verbatim>\<open>catch\<close>
  block, the call fails with that same \<open>e\<close>, every stored session with the given
  identifier has status failed afterwards, no session is added or removed and the other
  sessions are as they were before the call. When the store rejects that write, the
  table of sessions is as the body left it: the failure is not recorded.
\<close>

theorem orchestration_failure_on_store:
  assumes "fst (comparisonBody_on store models sdk sched sid uid mids db) = Inl e"
  shows "case rejects store SetFailed of
           None \<Rightarrow>
             fst (startComparisonStreaming_on store models sdk sched sid uid mids db) = Inl e
             \<and> (\<forall>s \<in> set (sessions (fst (snd (startComparisonStreaming_on store models sdk sched sid uid mids db)))).
                   cs_id s = sid \<longrightarrow> cs_status s = SFailed)
             \<and> map cs_id (sessions (fst (snd (startComparisonStreaming_on store models sdk sched sid uid mids db))))
                 = map cs_id (sessions db)
             \<and> filter (\<lambda>s. cs_id s \<noteq> sid)
                   (sessions (fst (snd (startComparisonStreaming_on store models sdk sched sid uid mids db))))
                 = filter (\<lambda>s. cs_id s \<noteq> sid) (sessions db)
         | Some e' \<Rightarrow>
             sessions (fst (snd (startComparisonStreaming_on store models sdk sched sid uid mids db)))
               = sessions (fst (snd (comparisonBody_on store models sdk sched sid uid mids db)))"
proof -
  obtain db' received where
    b: "comparisonBody_on store models sdk sched sid uid mids db = (Inl e, db', received)"
    using assms by (cases "comparisonBody_on store models sdk sched sid uid mids db") auto
  show ?thesis
  proof (cases "rejects store SetFailed")
    case (Some e')
    then show ?thesis using b by (simp add: startComparisonStreaming_on_def)
  next
    case None
    then have s: "startComparisonStreaming_on store models sdk sched sid uid mids db
                    = (Inl e, updateSessionStatus sid SFailed db', received)"
      using b by (simp add: startComparisonStreaming_on_def)
    have ids: "map cs_id (sessions db') = map cs_id (sessions db)"
      using comparisonBody_on_sessions [of "map cs_id" sid store models sdk sched uid mids db] b
      by simp
    have others: "filter (\<lambda>s. cs_id s \<noteq> sid) (sessions db') = filter (\<lambda>s. cs_id s \<noteq> sid) (sessions db)"
      using comparisonBody_on_sessions [of "filter (\<lambda>s. cs_id s \<noteq> sid)" sid store models sdk sched uid mids db]
        updateSessionStatus_others updateSessionMetrics_others b
      by simp
    have failed: "\<forall>s \<in> set (sessions (updateSessionStatus sid SFailed db')). cs_id s = sid \<longrightarrow> cs_status s = SFailed"
      by (intro ballI impI) (rule updateSessionStatus_sets)
    show ?thesis
      using None s ids others failed by (simp add: updateSessionStatus_others)
  qed
qed

theorem orchestration_failure_on_store_witness:
  "fst (comparisonBody_on metricsRejected exModels exSdk [1, 0, 0] ''s1'' ''u1'' [''gpt-4'', ''gpt-3.5-turbo''] exDb)
     = Inl (Error ''SQLITE_IOERR: disk I/O error'')
   \<and> rejects metricsRejected SetFailed = None
   \<and> fst (startComparisonStreaming_on metricsRejected exModels exSdk [1, 0, 0] ''s1'' ''u1''
             [''gpt-4'', ''gpt-3.5-turbo''] exDb)
     = Inl (Error ''SQLITE_IOERR: disk I/O error'')
   \<and> map cs_status
        (sessions (fst (snd (startComparisonStreaming_on metricsRejected exModels exSdk [1, 0, 0] ''s1'' ''u1''
                               [''gpt-4'', ''gpt-3.5-turbo''] exDb))))
     = [SFailed]"
proof -
  let ?mids = "[''gpt-4'', ''gpt-3.5-turbo'']"
  define ss where
    "ss = sessions (fst (snd (startComparisonStreaming_on metricsRejected exModels exSdk [1, 0, 0] ''s1'' ''u1'' ?mids exDb)))"
  have h: "fst (comparisonBody_on metricsRejected exModels exSdk [1, 0, 0] ''s1'' ''u1'' ?mids exDb) = Inl ioError"
    by code_simp
  have a: "rejects metricsRejected SetFailed = None"
    by (simp add: metricsRejected_def promptStore_def)
  have i: "map cs_id (sessions exDb) = [''s1'']"
    by (simp add: exDb_def exSession_def)
  from orchestration_failure_on_store [OF h] a i
  have r: "fst (startComparisonStreaming_on metricsRejected exModels exSdk [1, 0, 0] ''s1'' ''u1'' ?mids exDb) = Inl ioError"
    and f: "\<forall>s \<in> set ss. cs_id s = ''s1'' \<longrightarrow> cs_status s = SFailed"
    and m: "map cs_id ss = [''s1'']"
    unfolding ss_def by simp_all
  from m obtain x where x: "ss = [x]" "cs_id x = ''s1''"
    by (cases ss) auto
  with f have "cs_status x = SFailed" by simp
  with x have "map cs_status ss = [SFailed]" by simp
  with h r a show ?thesis unfolding ss_def by (simp add: ioError_def)
qed

text \<open>
  A session that is not stored: the save of the first response row is refused by the
  foreign key check, that error is raised, and there is no session to mark as failed.
\<close>

lemma missing_session_foreign_key:
  "startComparisonStreaming_on promptStore exModels exSdk [] ''s9'' ''u1'' [''gpt-4''] exDb
     = (Inl foreignKeyFailed, exDb, [])"
  by code_simp

subsection \<open>Updates that overtake one another\<close>

text \<open>
  Claim C1 does not hold of the code. The update made by the chunk callback is not
  awaited, and \<open>streamResponse\<close> drops the promises of the completion and error
  callbacks, so nothing orders the updates of one response row at the store. In the
  sample deployment, when the completion of \<open>gpt-4\<close> lands before the update of its last
  chunk, the call returns normally after the model has completed, and the row of
  \<open>gpt-4\<close> is left with status streaming for good. On the store that lets the updates
  land in the order of issue the same call leaves that row completed.
\<close>

theorem completion_overtakes_chunk:
  "fst (startComparisonStreaming_on completionFirst exModels exSdk [1, 0, 0] ''s1'' ''u1''
          [''gpt-4'', ''gpt-3.5-turbo''] exDb) = Inr ()
   \<and> map (\<lambda>r. (mr_modelId r, mr_status r))
        (responsesOf ''s1''
           (fst (snd (startComparisonStreaming_on completionFirst exModels exSdk [1, 0, 0] ''s1'' ''u1''
                        [''gpt-4'', ''gpt-3.5-turbo''] exDb))))
     = [(''gpt-4'', RStreaming), (''gpt-3.5-turbo'', RError)]
   \<and> map isComplete
        (filter (\<lambda>e. eventModel e = ''gpt-4'')
           (snd (snd (startComparisonStreaming_on completionFirst exModels exSdk [1, 0, 0] ''s1'' ''u1''
                        [''gpt-4'', ''gpt-3.5-turbo''] exDb))))
     = [False, False, False, False, True]
   \<and> map (\<lambda>r. (mr_modelId r, mr_status r))
        (responsesOf ''s1''
           (fst (snd (startComparisonStreaming_on promptStore exModels exSdk [1, 0, 0] ''s1'' ''u1''
                        [''gpt-4'', ''gpt-3.5-turbo''] exDb))))
     = [(''gpt-4'', RCompleted), (''gpt-3.5-turbo'', RError)]"
  by code_simp

text \<open>
  Claim C4 does not hold of the code, by the same defect. Every update of the chunk
  callback carries the whole text so far. In the sample deployment \<open>gpt-4\<close> receives the
  chunks \<open>Rec\<close>, \<open>ursion\<close>, \<open> is...\<close>, \<open>done\<close> and then completes; when the update of the
  last chunk lands before the update of the chunk before it, the text that stays in the
  completed row is \<open>Recursion is...\<close>, without the last chunk. On the store that lets the
  updates land in the order of issue the same call stores \<open>Recursion is...done\<close>.
\<close>

theorem chunk_overtakes_chunk:
  "fst (startComparisonStreaming_on lastChunkFirst exModels exSdk [1, 0, 0] ''s1'' ''u1''
          [''gpt-4'', ''gpt-3.5-turbo''] exDb) = Inr ()
   \<and> chunksFor ''gpt-4''
        (snd (snd (startComparisonStreaming_on lastChunkFirst exModels exSdk [1, 0, 0] ''s1'' ''u1''
                     [''gpt-4'', ''gpt-3.5-turbo''] exDb)))
     = [''Rec'', ''ursion'', '' is...'', ''done'']
   \<and> map isComplete
        (filter (\<lambda>e. eventModel e = ''gpt-4'')
           (snd (snd (startComparisonStreaming_on lastChunkFirst exModels exSdk [1, 0, 0] ''s1'' ''u1''
                        [''gpt-4'', ''gpt-3.5-turbo''] exDb))))
     = [False, False, False, False, True]
   \<and> map (\<lambda>r. (mr_status r, mr_response r))
        (responsesFor ''s1'' ''gpt-4''
           (fst (snd (startComparisonStreaming_on lastChunkFirst exModels exSdk [1, 0, 0] ''s1'' ''u1''
                        [''gpt-4'', ''gpt-3.5-turbo''] exDb))))
     = [(RCompleted, Some ''Recursion is...'')]
   \<and> map (\<lambda>r. (mr_status r, mr_response r))
        (responsesFor ''s1'' ''gpt-4''
           (fst (snd (startComparisonStreaming_on promptStore exModels exSdk [1, 0, 0] ''s1'' ''u1''
                        [''gpt-4'', ''gpt-3.5-turbo''] exDb))))
     = [(RCompleted, Some ''Recursion is...done'')]"
  by code_simp

end
